theory Spec2Isabelle
  imports Main "HOL-Library.Word"
begin

unbundle bit_operations_syntax

section \<open>The machine: byte memory, the backing provider, the allocator's globals\<close>

text \<open>
  The allocator of \<^verbatim>\<open>mm.c\<close> works on raw bytes of a heap that a backing provider
  (\<^verbatim>\<open>memlib\<close>) grows. The state below holds that byte memory, the provider's three
  addresses and the two globals of \<^verbatim>\<open>mm.c\<close> (\<^verbatim>\<open>heap_listp\<close>, \<^verbatim>\<open>freelist\<close>).

  Addresses and C integers are \<open>int\<close>; the wrap-around of \<^verbatim>\<open>size_t\<close> (64 bits) and of
  \<^verbatim>\<open>unsigned\<close> (32 bits) is written out with \<open>u64\<close> and \<open>u32\<close> at every place where
  the C expression can wrap. The null pointer is the address 0. A memory cell is one byte;
  a word is four bytes, least significant byte first.

  \<open>sbrk_calls\<close> counts the requests made to the provider. It is read by no operation.
\<close>

record state =
  mem :: "int \<Rightarrow> 8 word"
  mem_start_brk :: int
  mem_brk :: int
  mem_max_addr :: int
  sbrk_calls :: nat
  heap_listp :: int
  freelist :: int

definition u32 :: "int \<Rightarrow> int" where
  "u32 x = x mod 2 ^ 32"

definition u64 :: "int \<Rightarrow> int" where
  "u64 x = x mod 2 ^ 64"

text \<open>
  Modelled from the spec: the backing provider \<^verbatim>\<open>heap_extend(bytes)\<close> (\<^verbatim>\<open>mem_sbrk\<close> in the
  source's calls; \<^verbatim>\<open>memlib.c\<close> is not part of the repository's sources). It grows the heap
  by \<open>incr\<close> bytes and returns the address of the first new byte, or the sentinel \<open>-1\<close>
  when the provider's capacity \<open>mem_max_addr\<close> would be exceeded. A failed request
  leaves the heap as it is. The new bytes keep whatever they held.
\<close>

definition mem_sbrk :: "state \<Rightarrow> int \<Rightarrow> state \<times> int" where
  "mem_sbrk s incr =
     (let s = s\<lparr>sbrk_calls := sbrk_calls s + 1\<rparr> in
      if incr < 0 \<or> mem_brk s + incr > mem_max_addr s then (s, -1)
      else (s\<lparr>mem_brk := mem_brk s + incr\<rparr>, mem_brk s))"

text \<open>
  Modelled from the spec: \<^verbatim>\<open>heap_low()\<close>, \<^verbatim>\<open>heap_high()\<close> and \<^verbatim>\<open>heap_size()\<close>, used only by
  the checker: the first byte of the heap, its last byte and its size in bytes.
\<close>

definition mem_heap_lo :: "state \<Rightarrow> int" where
  "mem_heap_lo s = mem_start_brk s"

definition mem_heap_hi :: "state \<Rightarrow> int" where
  "mem_heap_hi s = mem_brk s - 1"

definition mem_heapsize :: "state \<Rightarrow> int" where
  "mem_heapsize s = mem_brk s - mem_start_brk s"

text \<open>The C library's \<^verbatim>\<open>memcpy\<close> on the byte memory; \<^verbatim>\<open>realloc\<close> copies as many bytes as
  the header of the old block says.\<close>

definition memcpy :: "state \<Rightarrow> int \<Rightarrow> int \<Rightarrow> int \<Rightarrow> state" where
  "memcpy s dst src n =
     s\<lparr>mem := (\<lambda>x. if dst \<le> x \<and> x < dst + n then mem s (src + (x - dst)) else mem s x)\<rparr>"

text \<open>The C library's \<^verbatim>\<open>memset\<close>. \<^verbatim>\<open>calloc\<close> passes it a byte count that comes from its
  caller and can be any \<^verbatim>\<open>size_t\<close>. The heap of the provider, from \<open>mem_start_brk\<close> up to
  \<open>mem_brk\<close>, is the memory that the program owns; a range that leaves it is undefined
  behaviour in C (the store runs off the heap and the process dies), which is the value
  \<open>None\<close>: the call does not return.\<close>

definition memset :: "state \<Rightarrow> int \<Rightarrow> 8 word \<Rightarrow> int \<Rightarrow> state option" where
  "memset s p c n =
     (if mem_start_brk s \<le> p \<and> p + n \<le> mem_brk s
      then Some (s\<lparr>mem := (\<lambda>x. if p \<le> x \<and> x < p + n then c else mem s x)\<rparr>)
      else None)"

section \<open>The macros of mm.c\<close>

definition WSIZE :: int where
  "WSIZE = 4"

definition DSIZE :: int where
  "DSIZE = 8"

definition CHUNKSIZE :: int where
  "CHUNKSIZE = 2 ^ 8"

definition PACK :: "int \<Rightarrow> int \<Rightarrow> int" where
  "PACK sz alloc = sz OR alloc"

text \<open>\<^verbatim>\<open>GET(p)\<close> reads an \<^verbatim>\<open>unsigned int\<close> at \<open>p\<close>; \<^verbatim>\<open>PUT(p, val)\<close> stores \<open>val\<close> converted to
  \<^verbatim>\<open>unsigned int\<close> (each byte keeps its eight bits of \<open>val\<close>).\<close>

definition GET :: "state \<Rightarrow> int \<Rightarrow> int" where
  "GET s p = uint (mem s p) + 256 * uint (mem s (p + 1)) + 65536 * uint (mem s (p + 2))
             + 16777216 * uint (mem s (p + 3))"

definition PUT :: "state \<Rightarrow> int \<Rightarrow> int \<Rightarrow> state" where
  "PUT s p val =
     s\<lparr>mem := (mem s)(p := word_of_int val,
                       p + 1 := word_of_int (val div 256),
                       p + 2 := word_of_int (val div 65536),
                       p + 3 := word_of_int (val div 16777216))\<rparr>"

definition GET_SIZE :: "state \<Rightarrow> int \<Rightarrow> int" where
  "GET_SIZE s p = GET s p AND NOT 7"

definition GET_ALLOC :: "state \<Rightarrow> int \<Rightarrow> int" where
  "GET_ALLOC s p = GET s p AND 1"

definition HDRP :: "int \<Rightarrow> int" where
  "HDRP bp = bp - WSIZE"

definition FTRP :: "state \<Rightarrow> int \<Rightarrow> int" where
  "FTRP s bp = bp + GET_SIZE s (HDRP bp) - DSIZE"

definition NEXT_BLKP :: "state \<Rightarrow> int \<Rightarrow> int" where
  "NEXT_BLKP s bp = bp + GET_SIZE s (bp - WSIZE)"

definition PREV_BLKP :: "state \<Rightarrow> int \<Rightarrow> int" where
  "PREV_BLKP s bp = bp - GET_SIZE s (bp - DSIZE)"

definition GET_ADDR_INDEX :: "state \<Rightarrow> int \<Rightarrow> int" where
  "GET_ADDR_INDEX s bp = u32 (bp - heap_listp s)"

definition GET_ADDR :: "state \<Rightarrow> int \<Rightarrow> int" where
  "GET_ADDR s index = heap_listp s + index"

text \<open>\<^verbatim>\<open>ALIGN\<close> is applied to \<^verbatim>\<open>size_t\<close> values: the sum wraps at 64 bits.\<close>

definition ALIGN :: "int \<Rightarrow> int" where
  "ALIGN sz = u64 (sz + 15) AND NOT 7"

section \<open>The free list\<close>

definition addToFreeList :: "state \<Rightarrow> int \<Rightarrow> state" where
  "addToFreeList s bp =
     (let s = PUT s bp 0;
          s = PUT s (bp + WSIZE) (freelist s);
          s = (if freelist s \<noteq> 0 then PUT s (GET_ADDR s (freelist s)) (GET_ADDR_INDEX s bp) else s)
      in s\<lparr>freelist := GET_ADDR_INDEX s bp\<rparr>)"

definition removeFromFreeList :: "state \<Rightarrow> int \<Rightarrow> state" where
  "removeFromFreeList s bp =
     (let ptr = bp + WSIZE;
          prev = GET s bp;
          next = GET s ptr
      in if prev \<noteq> 0 \<and> next \<noteq> 0 then
           (let s = PUT s (GET_ADDR s prev + WSIZE) next in PUT s (GET_ADDR s next) prev)
         else if prev = 0 \<and> next \<noteq> 0 then
           (let s = s\<lparr>freelist := next\<rparr> in PUT s (GET_ADDR s (freelist s)) 0)
         else if prev \<noteq> 0 \<and> next = 0 then
           PUT s (GET_ADDR s prev + WSIZE) 0
         else if prev = 0 \<and> next = 0 then
           s\<lparr>freelist := 0\<rparr>
         else s)"

section \<open>Coalescing, heap extension, initialisation\<close>

definition coalesce :: "state \<Rightarrow> int \<Rightarrow> state \<times> int" where
  "coalesce s bp =
     (let prev_alloc = GET_ALLOC s (FTRP s (PREV_BLKP s bp));
          next_alloc = GET_ALLOC s (HDRP (NEXT_BLKP s bp));
          sz = GET_SIZE s (HDRP bp)
      in if prev_alloc \<noteq> 0 \<and> next_alloc \<noteq> 0 then (s, bp)
         else if prev_alloc \<noteq> 0 \<and> next_alloc = 0 then
           (let s = removeFromFreeList s (NEXT_BLKP s bp);
                sz = u64 (sz + GET_SIZE s (HDRP (NEXT_BLKP s bp)));
                s = PUT s (HDRP bp) (PACK sz 0);
                s = PUT s (FTRP s bp) (PACK sz 0)
            in (s, bp))
         else if prev_alloc = 0 \<and> next_alloc \<noteq> 0 then
           (let bp = PREV_BLKP s bp;
                s = removeFromFreeList s bp;
                sz = u64 (sz + GET_SIZE s (HDRP bp));
                s = PUT s (HDRP bp) (PACK sz 0);
                s = PUT s (FTRP s bp) (PACK sz 0)
            in (s, bp))
         else
           (let sz = u64 (sz + u32 (GET_SIZE s (HDRP (PREV_BLKP s bp))
                                        + GET_SIZE s (FTRP s (NEXT_BLKP s bp))));
                s = removeFromFreeList s (NEXT_BLKP s bp);
                bp = PREV_BLKP s bp;
                s = removeFromFreeList s bp;
                s = PUT s (HDRP bp) (PACK sz 0);
                s = PUT s (FTRP s bp) (PACK sz 0)
            in (s, bp)))"

definition extend_heap :: "state \<Rightarrow> int \<Rightarrow> state \<times> int" where
  "extend_heap s words =
     (let sz = (if words mod 2 \<noteq> 0 then u64 (u64 (words + 1) * WSIZE) else u64 (words * WSIZE));
          (s, bp) = mem_sbrk s sz
      in if bp = -1 then (s, 0)
         else
           (let s = PUT s (HDRP bp) (PACK sz 0);
                s = PUT s (FTRP s bp) (PACK sz 0);
                s = PUT s (HDRP (NEXT_BLKP s bp)) (PACK 0 1);
                s = PUT s bp 0;
                s = PUT s (bp + WSIZE) 0;
                (s, bp) = coalesce s bp;
                s = addToFreeList s bp
            in (s, bp)))"

definition mm_init :: "state \<Rightarrow> state \<times> int" where
  "mm_init s =
     (let (s, p) = mem_sbrk s (2 * DSIZE);
          s = s\<lparr>heap_listp := p\<rparr>
      in if p = -1 then (s, -1)
         else
           (let s = PUT s (heap_listp s) 0;
                s = PUT s (heap_listp s + 1 * WSIZE) (PACK DSIZE 1);
                s = PUT s (heap_listp s + 2 * WSIZE) (PACK DSIZE 1);
                s = PUT s (heap_listp s + 3 * WSIZE) (PACK 0 1);
                s = s\<lparr>heap_listp := heap_listp s + 2 * WSIZE\<rparr>;
                s = s\<lparr>freelist := 0\<rparr>;
                (s, bp) = extend_heap s (CHUNKSIZE div WSIZE)
            in if bp = 0 then (s, -1) else (s, 0)))"

section \<open>free, place, find\_fit, malloc, realloc, calloc\<close>

definition free :: "state \<Rightarrow> int \<Rightarrow> state" where
  "free s bp =
     (if bp = 0 then s
      else
        (let sz = GET_SIZE s (HDRP bp);
             s = PUT s (HDRP bp) (PACK sz 0);
             s = PUT s (FTRP s bp) (PACK sz 0);
             s = PUT s bp 0;
             s = PUT s (bp + WSIZE) 0;
             (s, bp) = coalesce s bp
         in addToFreeList s bp))"

definition place :: "state \<Rightarrow> int \<Rightarrow> int \<Rightarrow> state" where
  "place s bp asize =
     (let csize = GET_SIZE s (HDRP bp);
          s = removeFromFreeList s bp
      in if u64 (csize - asize) \<ge> 2 * DSIZE then
           (let s = PUT s (HDRP bp) (PACK asize 1);
                s = PUT s (FTRP s bp) (PACK asize 1);
                nextbp = NEXT_BLKP s bp;
                s = PUT s (HDRP nextbp) (PACK (csize - asize) 0);
                s = PUT s (FTRP s nextbp) (PACK (csize - asize) 0)
            in addToFreeList s nextbp)
         else
           (let s = PUT s (HDRP bp) (PACK csize 1)
            in PUT s (FTRP s bp) (PACK csize 1)))"

text \<open>The loop of \<^verbatim>\<open>find_fit\<close> follows the links of the free list; on a cyclic list
  with no fitting block it does not return, which is the value \<open>None\<close>.\<close>

partial_function (option) find_fit_loop :: "state \<Rightarrow> int \<Rightarrow> int \<Rightarrow> int option" where
  "find_fit_loop s val asize =
     (if val \<noteq> 0 then
        (let ptr = GET_ADDR s val;
             blk_size = GET_SIZE s (HDRP ptr)
         in if blk_size \<ge> asize then Some ptr
            else find_fit_loop s (GET s (ptr + WSIZE)) asize)
      else Some 0)"

declare find_fit_loop.simps [code]

definition find_fit :: "state \<Rightarrow> int \<Rightarrow> int option" where
  "find_fit s asize = find_fit_loop s (freelist s) asize"

text \<open>The adjusted block size of a request, as \<^verbatim>\<open>malloc\<close> computes it.\<close>

definition adjust :: "int \<Rightarrow> int" where
  "adjust sz = (if sz \<le> DSIZE then 2 * DSIZE else ALIGN sz)"

definition malloc :: "state \<Rightarrow> int \<Rightarrow> (state \<times> int) option" where
  "malloc s sz =
     (if sz = 0 then Some (s, 0)
      else
        (let asize = adjust sz in
         case find_fit s asize of
           None \<Rightarrow> None
         | Some bp \<Rightarrow>
             if bp \<noteq> 0 then Some (place s bp asize, bp)
             else
               (let extendsize = max asize CHUNKSIZE;
                    (s, bp) = extend_heap s (extendsize div WSIZE)
                in if bp = 0 then Some (s, 0)
                   else Some (place s bp asize, bp))))"

definition realloc :: "state \<Rightarrow> int \<Rightarrow> int \<Rightarrow> (state \<times> int) option" where
  "realloc s ptr sz =
     (if ptr = 0 then malloc s sz
      else if sz = 0 then Some (free s ptr, 0)
      else
        (let oldsize = GET_SIZE s (HDRP ptr);
             asize = ALIGN sz
         in if oldsize \<ge> asize then
              (if oldsize - asize < 2 * DSIZE then Some (s, ptr)
               else
                 (let s = PUT s (HDRP ptr) (PACK asize 1);
                      s = PUT s (FTRP s ptr) (PACK asize 1);
                      newptr = NEXT_BLKP s ptr;
                      s = PUT s (HDRP newptr) (PACK (oldsize - asize) 0);
                      s = PUT s (FTRP s newptr) (PACK (oldsize - asize) 0);
                      s = PUT s newptr 0;
                      s = PUT s (newptr + WSIZE) 0;
                      (s, ignored) = coalesce s newptr;
                      s = addToFreeList s newptr
                  in Some (s, ptr)))
            else if asize > oldsize then
              (case malloc s asize of
                 None \<Rightarrow> None
               | Some (s, newptr) \<Rightarrow>
                   if newptr = 0 then Some (s, 0)
                   else
                     (let s = memcpy s newptr ptr oldsize;
                          s = free s ptr
                      in Some (s, newptr)))
            else Some (s, 0)))"

definition calloc :: "state \<Rightarrow> int \<Rightarrow> int \<Rightarrow> (state \<times> int) option" where
  "calloc s nmemb sz =
     (let bytes = u64 (nmemb * sz) in
      case malloc s bytes of
        None \<Rightarrow> None
      | Some (s, newptr) \<Rightarrow>
          if newptr \<noteq> 0 then
            (case memset s newptr 0 bytes of
               None \<Rightarrow> None
             | Some s \<Rightarrow> Some (s, newptr))
          else Some (s, newptr))"

section \<open>The consistency checker\<close>

text \<open>The checker prints diagnostics and changes nothing; its output is modelled as the
  list of the lines printed, one constructor for each \<^verbatim>\<open>printf\<close> of the source.\<close>

datatype diag =
    Heap_banner int
  | Bad_prologue_header
  | Epilogue_line int
  | Block_line int int int int int
  | Links_line int int
  | Out_of_bounds
  | Not_aligned int
  | Header_footer_mismatch int int
  | Not_coalesced
  | Empty_freelist
  | Bad_list_head
  | Allocated_in_freelist
  | Freelist_out_of_bounds
  | Bad_links
  | Count_mismatch
  | Wrong_epilogue_pointer
  | Bad_epilogue_header

definition printblock :: "state \<Rightarrow> int \<Rightarrow> diag list" where
  "printblock s bp =
     (let hsize = GET_SIZE s (HDRP bp);
          halloc = GET_ALLOC s (HDRP bp);
          fsize = GET_SIZE s (FTRP s bp);
          falloc = GET_ALLOC s (FTRP s bp);
          p = GET s bp;
          q = GET s (bp + WSIZE);
          pred = (if p \<noteq> 0 then GET_ADDR s p else 0);
          succ = (if q \<noteq> 0 then GET_ADDR s q else 0)
      in if hsize = 0 then [Epilogue_line bp]
         else Block_line bp hsize halloc fsize falloc
              # (if halloc = 0 then [Links_line pred succ] else []))"

definition checkblock :: "state \<Rightarrow> int \<Rightarrow> diag list" where
  "checkblock s bp =
     (if u64 bp > u64 (u64 (mem_heap_hi s) - 3) then [Out_of_bounds] else [])
     @ (if u64 bp mod 8 \<noteq> 0 then [Not_aligned bp] else [])
     @ (if GET s (HDRP bp) \<noteq> GET s (FTRP s bp)
        then [Header_footer_mismatch (GET s (HDRP bp)) (GET s (FTRP s bp))] else [])
     @ (if GET_ALLOC s (HDRP bp) = 0 then
          (if GET_ALLOC s (HDRP (PREV_BLKP s bp)) = 0 \<or> GET_ALLOC s (HDRP (NEXT_BLKP s bp)) = 0
           then [Not_coalesced] else [])
        else [])"

text \<open>The \<^verbatim>\<open>while\<close> loop of \<^verbatim>\<open>checkFreeList\<close>: \<open>a\<close> is the current list node, \<open>i\<close> the
  counter, \<open>out\<close> the lines printed so far.\<close>

partial_function (option) freelist_loop ::
  "state \<Rightarrow> int \<Rightarrow> int \<Rightarrow> diag list \<Rightarrow> (int \<times> diag list) option" where
  "freelist_loop s a i out =
     (if GET s (a + WSIZE) \<noteq> 0 then
        freelist_loop s (GET_ADDR s (GET s (a + WSIZE))) (i + 1)
          (out
           @ (if GET_ALLOC s (HDRP a) = 1 then [Allocated_in_freelist] else [])
           @ (if u64 (GET_ADDR s (GET s a)) < u64 (mem_heap_lo s)
                 \<or> u64 (GET_ADDR s (GET s a)) > u64 (mem_heap_hi s)
                 \<or> u64 (GET_ADDR s (GET s (a + WSIZE))) < u64 (mem_heap_lo s)
                 \<or> u64 (GET_ADDR s (GET s (a + WSIZE))) > u64 (mem_heap_hi s)
              then [Freelist_out_of_bounds]
              else if GET s (GET_ADDR s (GET s (a + WSIZE))) \<noteq> GET_ADDR_INDEX s a
              then printblock s a @ [Bad_links]
              else []))
      else Some (i, out))"

declare freelist_loop.simps [code]

text \<open>The \<^verbatim>\<open>for\<close> loop of \<^verbatim>\<open>checkFreeList\<close> over the physical blocks: \<open>j\<close> counts the
  blocks whose header is free.\<close>

partial_function (option) count_free_loop :: "state \<Rightarrow> int \<Rightarrow> int \<Rightarrow> int option" where
  "count_free_loop s a j =
     (if GET_SIZE s (HDRP a) > 0 then
        count_free_loop s (NEXT_BLKP s a) (if GET_ALLOC s (HDRP a) = 0 then j + 1 else j)
      else Some j)"

declare count_free_loop.simps [code]

definition checkFreeList :: "state \<Rightarrow> diag list option" where
  "checkFreeList s =
     (if freelist s = 0 then Some [Empty_freelist]
      else
        (let a = GET_ADDR s (freelist s);
             out = (if GET s a \<noteq> 0 then [Bad_list_head] else [])
         in case freelist_loop s a 1 out of
              None \<Rightarrow> None
            | Some (i, out) \<Rightarrow>
                (case count_free_loop s (heap_listp s) 0 of
                   None \<Rightarrow> None
                 | Some j \<Rightarrow> Some (out @ (if i - 1 \<noteq> j then [Count_mismatch] else [])))))"

text \<open>The \<^verbatim>\<open>for\<close> loop of \<^verbatim>\<open>mm_checkheap\<close>; it returns the block pointer at which it
  stopped.\<close>

partial_function (option) checkheap_loop ::
  "state \<Rightarrow> bool \<Rightarrow> int \<Rightarrow> diag list \<Rightarrow> (int \<times> diag list) option" where
  "checkheap_loop s verbose bp out =
     (if GET_SIZE s (HDRP bp) > 0 then
        checkheap_loop s verbose (NEXT_BLKP s bp)
          (out @ (if verbose then printblock s bp else []) @ checkblock s bp)
      else Some (bp, out))"

declare checkheap_loop.simps [code]

definition mm_checkheap :: "state \<Rightarrow> bool \<Rightarrow> diag list option" where
  "mm_checkheap s verbose =
     (let out = (if verbose then [Heap_banner (heap_listp s)] else [])
                @ (if GET_SIZE s (HDRP (heap_listp s)) \<noteq> DSIZE \<or> GET_ALLOC s (HDRP (heap_listp s)) = 0
                   then [Bad_prologue_header] else [])
                @ checkblock s (heap_listp s)
      in case checkheap_loop s verbose (heap_listp s) out of
           None \<Rightarrow> None
         | Some (bp, out) \<Rightarrow>
             (case checkFreeList s of
                None \<Rightarrow> None
              | Some fl \<Rightarrow>
                  Some (out @ fl
                        @ (if bp \<noteq> mem_heap_lo s + mem_heapsize s then [Wrong_epilogue_pointer] else [])
                        @ (if verbose then printblock s bp else [])
                        @ (if GET_SIZE s (HDRP bp) \<noteq> 0 \<or> GET_ALLOC s (HDRP bp) = 0
                           then [Bad_epilogue_header] else []))))"

text \<open>The two counts that the checker is to reconcile: the free blocks met on the physical
  walk from the prologue to the epilogue, and the blocks reached from \<open>freelist\<close> by the
  next links.\<close>

definition phys_free_count :: "state \<Rightarrow> int option" where
  "phys_free_count s = count_free_loop s (heap_listp s) 0"

partial_function (option) freelist_length_from :: "state \<Rightarrow> int \<Rightarrow> int \<Rightarrow> int option" where
  "freelist_length_from s val k =
     (if val \<noteq> 0 then freelist_length_from s (GET s (GET_ADDR s val + WSIZE)) (k + 1)
      else Some k)"

declare freelist_length_from.simps [code]

definition freelist_length :: "state \<Rightarrow> int option" where
  "freelist_length s = freelist_length_from s (freelist s) 0"

section \<open>A concrete provider\<close>

text \<open>A provider whose heap starts at \<open>base\<close>, is empty, can grow to \<open>cap\<close> bytes and
  holds zero bytes; the allocator's globals are zero, as C initialises them.\<close>

definition provider :: "int \<Rightarrow> int \<Rightarrow> state" where
  "provider base cap =
     \<lparr>mem = (\<lambda>x. 0), mem_start_brk = base, mem_brk = base, mem_max_addr = base + cap,
      sbrk_calls = 0, heap_listp = 0, freelist = 0\<rparr>"

text \<open>The states of the worked scenarios: a provider of 4096 bytes after \<^verbatim>\<open>mm_init\<close>, then
  after \<^verbatim>\<open>p = malloc(100)\<close>, then after \<^verbatim>\<open>q = realloc(p, 50)\<close>; and a provider of exactly
  272 bytes (the 16 bytes of the prologue and epilogue and one chunk), which cannot grow
  after \<^verbatim>\<open>mm_init\<close>, after \<^verbatim>\<open>mm_init\<close> and then after \<^verbatim>\<open>malloc(100)\<close>.\<close>

definition scenario_init :: state where
  "scenario_init = fst (mm_init (provider 4096 4096))"

definition scenario_alloc :: "state \<times> int" where
  "scenario_alloc = the (malloc scenario_init 100)"

definition scenario_resize :: "state \<times> int" where
  "scenario_resize = the (realloc (fst scenario_alloc) (snd scenario_alloc) 50)"

definition full_init :: state where
  "full_init = fst (mm_init (provider 4096 272))"

definition full_alloc :: "state \<times> int" where
  "full_alloc = the (malloc full_init 100)"

text \<open>The state of the provider of 4096 bytes after
  \<^verbatim>\<open>mm_init(); a = malloc(8); b = malloc(8); free(a)\<close>, and the result of \<^verbatim>\<open>calloc(1, 1)\<close>
  in it.\<close>

definition recycled :: state where
  "recycled =
     (let (s1, a) = the (malloc scenario_init 8);
          (s2, b) = the (malloc s1 8)
      in free s2 a)"

definition recycled_calloc :: "state \<times> int" where
  "recycled_calloc = the (calloc recycled 1 1)"

text \<open>The states of two scenarios with requests close to the largest \<^verbatim>\<open>size_t\<close>: after
  \<^verbatim>\<open>mm_init(); a = malloc(56); b = malloc(56); free(a)\<close>, then \<^verbatim>\<open>p = malloc(2^64 - 8)\<close>, then
  \<^verbatim>\<open>free(p)\<close>; and, from the state after \<^verbatim>\<open>p = malloc(100)\<close>, the results of
  \<^verbatim>\<open>realloc(p, 200)\<close> and of \<^verbatim>\<open>realloc(p, 2^64 - 16)\<close>.\<close>

definition wrap_a :: "state \<times> int" where
  "wrap_a = the (malloc scenario_init 56)"

definition wrap_b :: "state \<times> int" where
  "wrap_b = the (malloc (fst wrap_a) 56)"

definition wrap_free :: state where
  "wrap_free = free (fst wrap_b) (snd wrap_a)"

definition wrap_p :: "state \<times> int" where
  "wrap_p = the (malloc wrap_free 18446744073709551608)"

definition wrap_end :: state where
  "wrap_end = free (fst wrap_p) (snd wrap_p)"

definition scenario_grow :: "state \<times> int" where
  "scenario_grow = the (realloc (fst scenario_alloc) 4112 200)"

definition grow_wrap :: "state \<times> int" where
  "grow_wrap = the (realloc (fst scenario_alloc) 4112 18446744073709551600)"

text \<open>The result of \<^verbatim>\<open>calloc(10, 8)\<close> after \<^verbatim>\<open>mm_init(); a = malloc(56); b = malloc(56); free(a)\<close>.\<close>

definition wrap_calloc :: "state \<times> int" where
  "wrap_calloc = the (calloc wrap_free 10 8)"

text \<open>From the state after \<^verbatim>\<open>p = malloc(100)\<close>: \<^verbatim>\<open>q = realloc(p, 120)\<close> and then
  \<^verbatim>\<open>realloc(q, 120)\<close> once more.\<close>

definition grow120 :: "state \<times> int" where
  "grow120 = the (realloc (fst scenario_alloc) 4112 120)"

definition grow120_again :: "state \<times> int" where
  "grow120_again = the (realloc (fst grow120) (snd grow120) 120)"

text \<open>An empty free list: \<^verbatim>\<open>mm_init(); malloc(248)\<close> takes the whole first chunk. Then
  \<^verbatim>\<open>p = malloc(2^64 - 8)\<close>, and then \<^verbatim>\<open>malloc(8)\<close>.\<close>

definition drained :: "state \<times> int" where
  "drained = the (malloc scenario_init 248)"

definition drained_wrap :: "state \<times> int" where
  "drained_wrap = the (malloc (fst drained) 18446744073709551608)"

definition drained_again :: "state \<times> int" where
  "drained_again = the (malloc (fst drained_wrap) 8)"

text \<open>A provider that can grow to \<open>2 ^ 33\<close> bytes, more than the 32 bits of a header can
  tell: after \<^verbatim>\<open>mm_init\<close>, after \<^verbatim>\<open>malloc(2^32 + 100)\<close> in that state, after
  \<^verbatim>\<open>p = malloc(100)\<close> in that state, and then after \<^verbatim>\<open>realloc(p, 2^32)\<close>.\<close>

definition wide_init :: state where
  "wide_init = fst (mm_init (provider 4096 8589934592))"

definition wide_big :: "state \<times> int" where
  "wide_big = the (malloc wide_init 4294967396)"

definition wide_alloc :: "state \<times> int" where
  "wide_alloc = the (malloc wide_init 100)"

definition wide_grow :: "state \<times> int" where
  "wide_grow = the (realloc (fst wide_alloc) 4112 4294967296)"

section \<open>The physical walk and adjacent free blocks\<close>

text \<open>The walk over the blocks as every \<^verbatim>\<open>for\<close> loop of the source does it: from a block
  pointer by \<^verbatim>\<open>NEXT_BLKP\<close> as long as the header holds a size above zero. It returns the
  block pointers met, the epilogue excluded.\<close>

partial_function (option) heap_walk :: "state \<Rightarrow> int \<Rightarrow> int list option" where
  "heap_walk s bp =
     (if GET_SIZE s (HDRP bp) > 0
      then Option.bind (heap_walk s (NEXT_BLKP s bp)) (\<lambda>r. Some (bp # r))
      else Some [])"

declare heap_walk.simps [code]

text \<open>A block and its physical successor are both free; and the heap property that the walk
  from \<open>heap_listp\<close> ends and meets no such block.\<close>

definition adjacent_free :: "state \<Rightarrow> int \<Rightarrow> bool" where
  "adjacent_free s bp = (GET_ALLOC s (HDRP bp) = 0 \<and> GET_ALLOC s (HDRP (NEXT_BLKP s bp)) = 0)"

definition no_adjacent_free :: "state \<Rightarrow> bool" where
  "no_adjacent_free s =
     (case heap_walk s (heap_listp s) of
        None \<Rightarrow> False
      | Some bps \<Rightarrow> list_all (\<lambda>bp. \<not> adjacent_free s bp) bps)"

section \<open>Reachable states\<close>

text \<open>What \<^verbatim>\<open>mm_init\<close> expects of the provider: an empty heap that starts at an address
  divisible by 8 and cannot grow beyond 4 GiB, as the links of the free list are offsets
  of 32 bits.\<close>

definition provider_ok :: "state \<Rightarrow> bool" where
  "provider_ok s = (0 \<le> mem_start_brk s \<and> mem_start_brk s mod 8 = 0 \<and> mem_brk s = mem_start_brk s
     \<and> mem_max_addr s - mem_start_brk s < 4294967296)"

text \<open>The states that a client reaches, together with the set of the payload pointers it
  holds. The client calls \<^verbatim>\<open>mm_init\<close> once on a fresh provider and then \<^verbatim>\<open>malloc\<close>, \<^verbatim>\<open>free\<close>,
  \<^verbatim>\<open>realloc\<close> and \<^verbatim>\<open>calloc\<close> in any order; it passes to \<^verbatim>\<open>free\<close> and \<^verbatim>\<open>realloc\<close> only null
  or a pointer it holds, it writes only into the payload of a block it holds, and the
  sizes it asks for stay below the wrap-around of \<^verbatim>\<open>ALIGN\<close>: \<open>n + 15 < 2^64\<close> for a request
  to \<^verbatim>\<open>malloc\<close> (for \<^verbatim>\<open>calloc\<close>: for the product as the code computes it), and
  \<open>n + 23 < 2^64\<close> for \<^verbatim>\<open>realloc\<close>, which aligns its request twice when it has to grow.\<close>

inductive reach :: "state \<Rightarrow> int set \<Rightarrow> bool" where
  init: "provider_ok s0 \<Longrightarrow> mm_init s0 = (s, 0) \<Longrightarrow> reach s {}"
| malloc: "reach s L \<Longrightarrow> 0 \<le> n \<Longrightarrow> n + 15 < 18446744073709551616 \<Longrightarrow> malloc s n = Some (s', p)
     \<Longrightarrow> reach s' (if p = 0 then L else insert p L)"
| free: "reach s L \<Longrightarrow> p \<in> L \<Longrightarrow> reach (free s p) (L - {p})"
| free_null: "reach s L \<Longrightarrow> reach (free s 0) L"
| realloc: "reach s L \<Longrightarrow> p \<in> L \<Longrightarrow> 0 < n \<Longrightarrow> n + 23 < 18446744073709551616
     \<Longrightarrow> realloc s p n = Some (s', q) \<Longrightarrow> reach s' (if q = 0 then L else insert q (L - {p}))"
| realloc_null: "reach s L \<Longrightarrow> 0 \<le> n \<Longrightarrow> n + 15 < 18446744073709551616
     \<Longrightarrow> realloc s 0 n = Some (s', q) \<Longrightarrow> reach s' (if q = 0 then L else insert q L)"
| realloc_zero: "reach s L \<Longrightarrow> p \<in> L \<Longrightarrow> realloc s p 0 = Some (s', q) \<Longrightarrow> reach s' (L - {p})"
| calloc: "reach s L \<Longrightarrow> 0 \<le> k \<Longrightarrow> 0 \<le> m \<Longrightarrow> u64 (k * m) + 15 < 18446744073709551616
     \<Longrightarrow> calloc s k m = Some (s', p) \<Longrightarrow> reach s' (if p = 0 then L else insert p L)"
| store: "reach s L \<Longrightarrow> p \<in> L \<Longrightarrow> p \<le> a \<Longrightarrow> a < p + GET_SIZE s (HDRP p) - 8
     \<Longrightarrow> reach (s\<lparr>mem := (mem s)(a := v)\<rparr>) L"

section \<open>The heap as a list of blocks\<close>

text \<open>The invariant is stated relative to two lists that are not in the state: the
  blocks between \<open>heap_listp\<close> and the epilogue in address order, each with its size and
  whether it is allocated, the prologue as the first of them; and the nodes of the free
  list in list order. A block of size \<open>z\<close> at \<open>a\<close> holds the word \<open>tag z al\<close> in its header
  at \<open>a - 4\<close> and in its footer at \<open>a + z - 8\<close>.\<close>

type_synonym blk = "int \<times> bool"

definition tag :: "int \<Rightarrow> bool \<Rightarrow> int" where
  "tag z al = z + (if al then 1 else 0)"

fun extent :: "blk list \<Rightarrow> int" where
  "extent [] = 0"
| "extent ((z, al) # bs) = z + extent bs"

fun seg :: "state \<Rightarrow> int \<Rightarrow> blk list \<Rightarrow> bool" where
  "seg s a [] = True"
| "seg s a ((z, al) # bs) =
     (GET s (a - 4) = tag z al \<and> GET s (a + z - 8) = tag z al \<and> seg s (a + z) bs)"

definition sizes_ok :: "blk list \<Rightarrow> bool" where
  "sizes_ok bs = (\<forall>(z, al) \<in> set bs. 8 \<le> z \<and> z mod 8 = 0 \<and> (\<not> al \<longrightarrow> 16 \<le> z))"

text \<open>The blocks with their addresses, the bytes of their headers and footers, the
  addresses of the free ones, and the allocated ones with their sizes.\<close>

fun blocks :: "int \<Rightarrow> blk list \<Rightarrow> (int \<times> int \<times> bool) list" where
  "blocks a [] = []"
| "blocks a ((z, al) # bs) = (a, z, al) # blocks (a + z) bs"

fun meta :: "int \<Rightarrow> blk list \<Rightarrow> int \<Rightarrow> bool" where
  "meta a [] x = False"
| "meta a ((z, al) # bs) x =
     ((a - 4 \<le> x \<and> x < a) \<or> (a + z - 8 \<le> x \<and> x < a + z - 4) \<or> meta (a + z) bs x)"

fun frees :: "int \<Rightarrow> blk list \<Rightarrow> int set" where
  "frees a [] = {}"
| "frees a ((z, al) # bs) = (if al then {} else {a}) \<union> frees (a + z) bs"

fun allocs :: "int \<Rightarrow> blk list \<Rightarrow> (int \<times> int) set" where
  "allocs a [] = {}"
| "allocs a ((z, al) # bs) = (if al then {(a, z)} else {}) \<union> allocs (a + z) bs"

text \<open>No two neighbours of the list are both free.\<close>

fun naf :: "blk list \<Rightarrow> bool" where
  "naf [] = True"
| "naf [x] = True"
| "naf ((z, al) # (z', al') # bs) = ((al \<or> al') \<and> naf ((z', al') # bs))"

definition big :: "blk list \<Rightarrow> bool" where
  "big bs = (\<forall>(z, al) \<in> set bs. 16 \<le> z \<and> z mod 8 = 0)"

text \<open>The chain: the heap starts with the padding word and the prologue of 8 bytes, the
  blocks lie one after the other with matching headers and footers, and the word before
  \<open>mem_brk\<close> is the header of the epilogue.\<close>

definition chain_ok :: "state \<Rightarrow> blk list \<Rightarrow> bool" where
  "chain_ok s bs =
     (0 \<le> mem_start_brk s \<and> mem_start_brk s mod 8 = 0 \<and> heap_listp s = mem_start_brk s + 8
      \<and> mem_brk s \<le> mem_max_addr s \<and> mem_max_addr s - mem_start_brk s < 4294967296
      \<and> bs \<noteq> [] \<and> hd bs = (8, True) \<and> big (tl bs)
      \<and> seg s (heap_listp s) bs \<and> heap_listp s + extent bs = mem_brk s
      \<and> GET s (mem_brk s - 4) = 1)"

text \<open>The free list: \<open>freelist\<close> and the two link words of every node hold offsets from
  \<open>heap_listp\<close>, zero for none. \<open>dl s p fl n\<close> says that the nodes \<open>fl\<close> are linked in both
  directions, the first to the offset \<open>p\<close> before it and the last to the offset \<open>n\<close> after
  it.\<close>

fun nxt :: "state \<Rightarrow> int list \<Rightarrow> int \<Rightarrow> int" where
  "nxt s [] n = n"
| "nxt s (a # as) n = a - heap_listp s"

definition prv :: "state \<Rightarrow> int list \<Rightarrow> int \<Rightarrow> int" where
  "prv s xs p = (if xs = [] then p else last xs - heap_listp s)"

fun dl :: "state \<Rightarrow> int \<Rightarrow> int list \<Rightarrow> int \<Rightarrow> bool" where
  "dl s p [] n = True"
| "dl s p (a # as) n = (GET s a = p \<and> GET s (a + 4) = nxt s as n \<and> dl s (a - heap_listp s) as n)"

definition nodes_ok :: "state \<Rightarrow> int list \<Rightarrow> bool" where
  "nodes_ok s fl = (distinct fl \<and>
     (\<forall>a \<in> set fl. a mod 8 = 0 \<and> heap_listp s < a \<and> a - heap_listp s < 4294967296))"

definition fl_ok :: "state \<Rightarrow> int list \<Rightarrow> bool" where
  "fl_ok s fl = (freelist s = nxt s fl 0 \<and> dl s 0 fl 0 \<and> nodes_ok s fl)"

text \<open>The invariant: the chain, the list, and the nodes of the list are the free blocks of
  the chain. \<open>open_rel\<close> is the state in the middle of \<^verbatim>\<open>free\<close> and \<^verbatim>\<open>extend_heap\<close>: one free
  block of the chain is not on the list yet.\<close>

definition heap_rel :: "state \<Rightarrow> blk list \<Rightarrow> int list \<Rightarrow> bool" where
  "heap_rel s bs fl = (chain_ok s bs \<and> fl_ok s fl \<and> set fl = frees (heap_listp s) bs)"

definition open_rel :: "state \<Rightarrow> blk list \<Rightarrow> int \<Rightarrow> blk list \<Rightarrow> int list \<Rightarrow> bool" where
  "open_rel s pre z post fl =
     (chain_ok s (pre @ (z, False) # post) \<and> pre \<noteq> [] \<and> fl_ok s fl
      \<and> set fl = frees (heap_listp s) pre \<union> frees (heap_listp s + extent pre + z) post)"

text \<open>Frames: \<open>touches s s' ns\<close> says that \<open>s'\<close> differs from \<open>s\<close> at most in \<open>freelist\<close> and in
  the link words of the nodes \<open>ns\<close>; \<open>region s s' lo hi\<close> that it differs at most in
  \<open>sbrk_calls\<close> and in the bytes from \<open>lo\<close> up to \<open>hi\<close>.\<close>

definition touches :: "state \<Rightarrow> state \<Rightarrow> int list \<Rightarrow> bool" where
  "touches s s' ns =
     (heap_listp s' = heap_listp s \<and> mem_brk s' = mem_brk s \<and> mem_start_brk s' = mem_start_brk s
      \<and> mem_max_addr s' = mem_max_addr s \<and> sbrk_calls s' = sbrk_calls s
      \<and> (\<forall>x. (\<forall>a\<in>set ns. x < a \<or> a + 8 \<le> x) \<longrightarrow> mem s' x = mem s x))"

definition region :: "state \<Rightarrow> state \<Rightarrow> int \<Rightarrow> int \<Rightarrow> bool" where
  "region s s' lo hi =
     (heap_listp s' = heap_listp s \<and> mem_brk s' = mem_brk s \<and> mem_start_brk s' = mem_start_brk s
      \<and> mem_max_addr s' = mem_max_addr s \<and> freelist s' = freelist s
      \<and> (\<forall>x. x < lo \<or> hi \<le> x \<longrightarrow> mem s' x = mem s x))"

text \<open>The pointers that the client holds are the allocated blocks of the chain, the
  prologue apart.\<close>

definition live :: "int \<Rightarrow> blk list \<Rightarrow> int set" where
  "live h bs = fst ` allocs h bs - {h}"

definition heap_inv :: "state \<Rightarrow> int set \<Rightarrow> bool" where
  "heap_inv s L = (\<exists>bs fl. heap_rel s bs fl \<and> naf bs \<and> L = live (heap_listp s) bs)"

section \<open>Words in memory and the arithmetic of the macros\<close>

lemma split32:
  "(v::int) mod 256 + 256 * (v div 256 mod 256) + 65536 * (v div 65536 mod 256)
     + 16777216 * (v div 16777216 mod 256) = v mod 4294967296"
proof -
  have a: "v mod 65536 = 256 * (v div 256 mod 256) + v mod 256"
    using mod_mult2_eq'[of v 256 256] by simp
  have b: "(v div 65536) mod 65536 = 256 * (v div 65536 div 256 mod 256) + v div 65536 mod 256"
    using mod_mult2_eq'[of "v div 65536" 256 256] by simp
  have c: "v mod 4294967296 = 65536 * (v div 65536 mod 65536) + v mod 65536"
    using mod_mult2_eq'[of v 65536 65536] by simp
  have d: "v div 65536 div 256 = v div 16777216"
    by (simp add: div_mult2_eq[symmetric])
  show ?thesis using a b c d by simp
qed

lemma GET_PUT_same: "GET (PUT s p v) p = u32 v"
  by (simp add: GET_def PUT_def u32_def uint_word_of_int split32)

lemma GET_PUT_other: "q + 4 \<le> p \<or> p + 4 \<le> q \<Longrightarrow> GET (PUT s p v) q = GET s q"
  by (auto simp add: GET_def PUT_def)

lemma uint8_bound: "uint (w :: 8 word) < 256" "0 \<le> uint w"
  using uint_bounded[of w] by simp_all

lemma GET_ge0: "0 \<le> GET s p"
  using uint8_bound[of "mem s p"] uint8_bound[of "mem s (p + 1)"]
    uint8_bound[of "mem s (p + 2)"] uint8_bound[of "mem s (p + 3)"]
  by (simp add: GET_def)

lemma GET_lt: "GET s p < 4294967296"
  using uint8_bound[of "mem s p"] uint8_bound[of "mem s (p + 1)"]
    uint8_bound[of "mem s (p + 2)"] uint8_bound[of "mem s (p + 3)"]
  by (simp add: GET_def)

lemma and_m8: "(x::int) AND - 8 = 8 * (x div 8)"
proof -
  have a: "x AND - 8 = 2 * (x div 2 AND - 4)"
    using and_int_rec[of x "- 8"] by simp
  have b: "x div 2 AND - 4 = 2 * (x div 2 div 2 AND - 2)"
    using and_int_rec[of "x div 2" "- 4"] by simp
  have c: "x div 2 div 2 AND - 2 = 2 * (x div 2 div 2 div 2 AND - 1)"
    using and_int_rec[of "x div 2 div 2" "- 2"] by simp
  have d: "x div 2 div 2 div 2 = x div 8"
    by (simp add: div_mult2_eq[symmetric])
  show ?thesis unfolding a b c d by simp
qed

lemma GET_SIZE_eq: "GET_SIZE s p = 8 * (GET s p div 8)"
  by (simp add: GET_SIZE_def and_m8)

lemma GET_ALLOC_eq: "GET_ALLOC s p = GET s p mod 2"
  by (simp add: GET_ALLOC_def and_one_eq)

lemma GET_SIZE_bounds:
  "0 \<le> GET_SIZE s p" "GET_SIZE s p < 4294967296" "GET_SIZE s p mod 8 = 0"
  using GET_ge0[of s p] GET_lt[of s p] by (simp_all add: GET_SIZE_eq)

lemma ALIGN_eq: "ALIGN n = 8 * (((n + 15) mod 18446744073709551616) div 8)"
  by (simp add: ALIGN_def u64_def and_m8)

lemma ALIGN_bounds: "0 \<le> ALIGN n" "ALIGN n < 18446744073709551616" "ALIGN n mod 8 = 0"
  by (simp_all add: ALIGN_eq)

lemma adjust_bounds: "0 \<le> adjust n" "adjust n < 18446744073709551616" "adjust n mod 8 = 0"
  using ALIGN_bounds[of n] by (simp_all add: adjust_def DSIZE_def)

lemma ALIGN_payload:
  "sz mod 8 = 0 \<Longrightarrow> 8 \<le> sz \<Longrightarrow> sz < 4294967296 \<Longrightarrow> ALIGN (sz - 8) = sz"
  by (simp add: ALIGN_eq) presburger

lemma mem_memset:
  "memset s p c n = Some s' \<Longrightarrow> mem s' x = (if p \<le> x \<and> x < p + n then c else mem s x)"
  by (auto simp add: memset_def split: if_splits)

lemma memset_heap:
  "mem_start_brk s \<le> p \<Longrightarrow> p + n \<le> mem_brk s \<Longrightarrow> \<exists>s'. memset s p c n = Some s'"
  by (simp add: memset_def)

section \<open>Failure of the provider\<close>

lemma extend_size:
  assumes "a mod 8 = 0" "0 \<le> a" "a < 18446744073709551616"
  shows "(if (a div WSIZE) mod 2 \<noteq> 0 then u64 (u64 (a div WSIZE + 1) * WSIZE)
          else u64 (a div WSIZE * WSIZE)) = a"
proof -
  have "(a div 4) mod 2 = 0" using assms(1) by presburger
  moreover have "a div 4 * 4 = a" using assms(1) by presburger
  ultimately show ?thesis using assms by (simp add: WSIZE_def u64_def)
qed

lemma extend_heap_fail:
  assumes "a mod 8 = 0" "0 \<le> a" "a < 18446744073709551616" "mem_max_addr s < mem_brk s + a"
  shows "extend_heap s (a div WSIZE) = (s\<lparr>sbrk_calls := sbrk_calls s + 1\<rparr>, 0)"
  unfolding extend_heap_def extend_size[OF assms(1-3)] Let_def
  using assms by (simp add: mem_sbrk_def)

lemma malloc_oom:
  assumes "n \<noteq> 0" "find_fit s (adjust n) = Some 0"
    "mem_max_addr s < mem_brk s + max (adjust n) CHUNKSIZE"
  shows "malloc s n = Some (s\<lparr>sbrk_calls := sbrk_calls s + 1\<rparr>, 0)"
proof -
  let ?a = "max (adjust n) CHUNKSIZE"
  have "?a mod 8 = 0" "0 \<le> ?a" "?a < 18446744073709551616"
    using adjust_bounds[of n] by (auto simp add: CHUNKSIZE_def max_def)
  from extend_heap_fail[OF this assms(3)] show ?thesis
    using assms(1,2) by (simp add: malloc_def Let_def)
qed

lemma realloc_oom:
  assumes "ptr \<noteq> 0" "m \<noteq> 0" "GET_SIZE s (HDRP ptr) < ALIGN m"
    "find_fit s (adjust (ALIGN m)) = Some 0"
    "mem_max_addr s < mem_brk s + max (adjust (ALIGN m)) CHUNKSIZE"
  shows "realloc s ptr m = Some (s\<lparr>sbrk_calls := sbrk_calls s + 1\<rparr>, 0)"
proof -
  have "ALIGN m \<noteq> 0" using assms(3) GET_SIZE_bounds(1)[of s "HDRP ptr"] by simp
  from malloc_oom[OF this assms(4,5)] show ?thesis
    using assms(1-3) by (simp add: realloc_def Let_def)
qed

lemma full_alloc_facts:
  "map_option snd (malloc full_init 100) = Some 4112"
  "find_fit (fst full_alloc) (adjust 1008) = Some 0"
  "mem_max_addr (fst full_alloc) < mem_brk (fst full_alloc) + max (adjust 1008) CHUNKSIZE"
  "ALIGN 1000 = 1008"
  "GET_SIZE (fst full_alloc) (HDRP 4112) < ALIGN 1000"
  by code_simp+

lemma scenario_alloc_facts:
  "snd (mm_init (provider 4096 4096)) = 0"
  "map_option snd (malloc scenario_init 100) = Some 4112"
  "GET_SIZE (fst scenario_alloc) (HDRP 4112) = 112"
  "ALIGN 50 = 64"
  by code_simp+

text \<open>
  C5. When the provider cannot grow the heap by the bytes that \<^verbatim>\<open>malloc\<close> asks for after
  \<^verbatim>\<open>find_fit\<close> found no block (\<open>max (adjust n) CHUNKSIZE\<close> bytes), then \<^verbatim>\<open>malloc\<close> returns
  null, the provider was asked exactly once (\<open>sbrk_calls\<close> went up by one: no retry) and
  nothing else of the state changed: the free list and the whole memory are as before.
  A \<^verbatim>\<open>realloc(ptr, m)\<close> that has to grow (its internal request is \<open>n = ALIGN m\<close>) then
  returns null as well, with the same state: the old block keeps its header, its footer
  and its contents.
\<close>

theorem out_of_memory:
  assumes "n \<noteq> 0" and "find_fit s (adjust n) = Some 0"
    and "mem_max_addr s < mem_brk s + max (adjust n) CHUNKSIZE"
  shows "malloc s n = Some (s\<lparr>sbrk_calls := sbrk_calls s + 1\<rparr>, 0)
     \<and> freelist (s\<lparr>sbrk_calls := sbrk_calls s + 1\<rparr>) = freelist s
     \<and> mem (s\<lparr>sbrk_calls := sbrk_calls s + 1\<rparr>) = mem s
     \<and> (\<forall>ptr m. ptr \<noteq> 0 \<and> m \<noteq> 0 \<and> ALIGN m = n \<and> GET_SIZE s (HDRP ptr) < ALIGN m \<longrightarrow>
           realloc s ptr m = Some (s\<lparr>sbrk_calls := sbrk_calls s + 1\<rparr>, 0))"
  using malloc_oom[OF assms]
  by (auto simp add: realloc_def Let_def)

theorem out_of_memory_witness:
  "(1008::int) \<noteq> 0 \<and> find_fit (fst full_alloc) (adjust 1008) = Some 0
   \<and> mem_max_addr (fst full_alloc) < mem_brk (fst full_alloc) + max (adjust 1008) CHUNKSIZE
   \<and> malloc (fst full_alloc) 1008
       = Some ((fst full_alloc)\<lparr>sbrk_calls := sbrk_calls (fst full_alloc) + 1\<rparr>, 0)
   \<and> (4112::int) \<noteq> 0 \<and> (1000::int) \<noteq> 0 \<and> ALIGN 1000 = 1008
   \<and> GET_SIZE (fst full_alloc) (HDRP 4112) < ALIGN 1000
   \<and> realloc (fst full_alloc) 4112 1000
       = Some ((fst full_alloc)\<lparr>sbrk_calls := sbrk_calls (fst full_alloc) + 1\<rparr>, 0)"
proof -
  have n: "(1008::int) \<noteq> 0" by simp
  note h = out_of_memory[OF n full_alloc_facts(2) full_alloc_facts(3)]
  from h have r: "realloc (fst full_alloc) 4112 1000
       = Some ((fst full_alloc)\<lparr>sbrk_calls := sbrk_calls (fst full_alloc) + 1\<rparr>, 0)"
    using full_alloc_facts(4,5) by simp
  show ?thesis using h r full_alloc_facts by simp
qed

section \<open>Degenerate requests\<close>

text \<open>
  C6. \<^verbatim>\<open>malloc(0)\<close> returns null and leaves the state as it is; \<^verbatim>\<open>free(NULL)\<close> changes
  nothing; \<^verbatim>\<open>realloc(NULL, n)\<close> is \<^verbatim>\<open>malloc(n)\<close>; \<^verbatim>\<open>realloc(ptr, 0)\<close> on a non-null
  pointer frees it and returns null. None of them signals an error: each returns a value.
\<close>

theorem invalid_requests:
  "malloc s 0 = Some (s, 0) \<and> free s 0 = s \<and> realloc s 0 n = malloc s n
   \<and> (ptr \<noteq> 0 \<longrightarrow> realloc s ptr 0 = Some (free s ptr, 0))"
  by (simp add: malloc_def free_def realloc_def)

theorem invalid_requests_witness:
  "malloc (fst scenario_alloc) 0 = Some (fst scenario_alloc, 0)
   \<and> free (fst scenario_alloc) 0 = fst scenario_alloc
   \<and> realloc (fst scenario_alloc) 0 24 = malloc (fst scenario_alloc) 24
   \<and> (4112::int) \<noteq> 0
   \<and> realloc (fst scenario_alloc) 4112 0 = Some (free (fst scenario_alloc) 4112, 0)"
  using invalid_requests[of "fst scenario_alloc" 24 4112] by simp

section \<open>Resizing\<close>

text \<open>
  C8, with the size of \<open>ptr\<close> read as \<^verbatim>\<open>realloc\<close> reads it: the block size in the header of
  its block. For a pointer other than null and a request \<open>n\<close> other than 0 such that the
  block size is at least \<open>ALIGN n\<close> and less than 16 bytes above it, \<^verbatim>\<open>realloc\<close> returns the
  same pointer and the state is the one before the call: size, allocation bit and
  contents of the block are untouched.
\<close>

theorem realloc_same_size:
  assumes "ptr \<noteq> 0" and "n \<noteq> 0"
    and "ALIGN n \<le> GET_SIZE s (HDRP ptr)" and "GET_SIZE s (HDRP ptr) < ALIGN n + 16"
  shows "realloc s ptr n = Some (s, ptr)"
  using assms by (simp add: realloc_def Let_def DSIZE_def)

theorem realloc_same_size_witness:
  "(4112::int) \<noteq> 0 \<and> (100::int) \<noteq> 0
   \<and> ALIGN 100 \<le> GET_SIZE (fst scenario_alloc) (HDRP 4112)
   \<and> GET_SIZE (fst scenario_alloc) (HDRP 4112) < ALIGN 100 + 16
   \<and> realloc (fst scenario_alloc) 4112 100 = Some (fst scenario_alloc, 4112)"
proof -
  have h: "ALIGN 100 \<le> GET_SIZE (fst scenario_alloc) (HDRP 4112)"
    "GET_SIZE (fst scenario_alloc) (HDRP 4112) < ALIGN 100 + 16"
    by code_simp+
  from realloc_same_size[OF _ _ h] h show ?thesis by simp
qed

text \<open>The requests that meet the condition, for a request that \<^verbatim>\<open>ALIGN\<close> does not wrap: those
  from 23 to 8 bytes below the block size. The block size itself is not among them.\<close>

lemma same_size_range:
  assumes "0 < n" and "n + 15 < 18446744073709551616"
  shows "(ALIGN n \<le> GET_SIZE s p \<and> GET_SIZE s p < ALIGN n + 16)
           = (GET_SIZE s p - 23 \<le> n \<and> n \<le> GET_SIZE s p - 8)"
  using assms by (simp add: ALIGN_eq GET_SIZE_eq) presburger

text \<open>With the block size itself as the request, \<^verbatim>\<open>realloc\<close> moves the block: after
  \<^verbatim>\<open>p = malloc(100)\<close> the block at 4112 has 112 bytes and \<^verbatim>\<open>realloc(p, 112)\<close> returns 4224.
  With the size that the caller asked for last, the block can shrink: \<^verbatim>\<open>q = realloc(p, 120)\<close>
  returns a block of 144 bytes at 4224, and \<^verbatim>\<open>realloc(q, 120)\<close> once more cuts it to 128
  bytes.\<close>

theorem realloc_same_size_counterexample:
  "GET_SIZE (fst scenario_alloc) (HDRP 4112) = 112
   \<and> map_option snd (realloc (fst scenario_alloc) 4112 112) = Some 4224
   \<and> snd grow120 = 4224
   \<and> GET_SIZE (fst grow120) (HDRP 4224) = 144
   \<and> snd grow120_again = 4224
   \<and> GET_SIZE (fst grow120_again) (HDRP 4224) = 128"
  by code_simp

text \<open>
  C10. For a non-null \<open>ptr\<close> and \<open>n \<noteq> 0\<close> the two comparisons of \<^verbatim>\<open>realloc\<close> cover every
  case; when the old size is at least \<open>ALIGN n\<close> the result is \<open>ptr\<close>; and a null result
  means that the block had to grow and the internal \<^verbatim>\<open>malloc(ALIGN n)\<close> returned null. So
  the final \<^verbatim>\<open>return 0\<close> of the source is never reached.
\<close>

theorem realloc_null_only:
  assumes "ptr \<noteq> 0" and "n \<noteq> 0"
  shows "(ALIGN n \<le> GET_SIZE s (HDRP ptr) \<or> GET_SIZE s (HDRP ptr) < ALIGN n)
     \<and> (ALIGN n \<le> GET_SIZE s (HDRP ptr) \<longrightarrow> map_option snd (realloc s ptr n) = Some ptr)
     \<and> (\<forall>s'. realloc s ptr n = Some (s', 0) \<longrightarrow>
           GET_SIZE s (HDRP ptr) < ALIGN n \<and> malloc s (ALIGN n) = Some (s', 0))"
  using assms
  by (auto simp add: realloc_def Let_def split: option.splits prod.splits if_splits)

theorem realloc_null_only_witness:
  "(4112::int) \<noteq> 0 \<and> (1000::int) \<noteq> 0 \<and> (50::int) \<noteq> 0
   \<and> ALIGN 50 \<le> GET_SIZE (fst scenario_alloc) (HDRP 4112)
   \<and> map_option snd (realloc (fst scenario_alloc) 4112 50) = Some 4112
   \<and> realloc (fst full_alloc) 4112 1000
       = Some ((fst full_alloc)\<lparr>sbrk_calls := sbrk_calls (fst full_alloc) + 1\<rparr>, 0)
   \<and> GET_SIZE (fst full_alloc) (HDRP 4112) < ALIGN 1000
   \<and> malloc (fst full_alloc) (ALIGN 1000)
       = Some ((fst full_alloc)\<lparr>sbrk_calls := sbrk_calls (fst full_alloc) + 1\<rparr>, 0)"
proof -
  have p: "(4112::int) \<noteq> 0" and n: "(1000::int) \<noteq> 0" and m: "(50::int) \<noteq> 0" by simp_all
  have r: "realloc (fst full_alloc) 4112 1000
       = Some ((fst full_alloc)\<lparr>sbrk_calls := sbrk_calls (fst full_alloc) + 1\<rparr>, 0)"
    using realloc_oom[OF p n full_alloc_facts(5)] full_alloc_facts by simp
  have a: "ALIGN 50 \<le> GET_SIZE (fst scenario_alloc) (HDRP 4112)"
    by (simp add: scenario_alloc_facts)
  show ?thesis
    using realloc_null_only[OF p n, of "fst full_alloc"]
      realloc_null_only[OF p m, of "fst scenario_alloc"] r a
    by simp
qed

text \<open>
  C4. After \<^verbatim>\<open>mm_init(); p = malloc(100); q = realloc(p, 50)\<close> on the provider of 4096 bytes:
  both calls succeed, \<open>q = p = 4112\<close>, the block at \<open>p\<close> is allocated with size 64, and the
  block after it, at \<open>p + 64\<close>, is free with size 192: the 48 bytes cut off from \<open>p\<close>,
  coalesced with the free block of 144 bytes that followed the old block of 112 bytes.
\<close>

theorem shrink_scenario:
  "snd (mm_init (provider 4096 4096)) = 0
   \<and> map_option snd (malloc scenario_init 100) = Some 4112
   \<and> map_option snd (realloc (fst scenario_alloc) (snd scenario_alloc) 50) = Some 4112
   \<and> GET_SIZE (fst scenario_resize) (HDRP 4112) = 64
   \<and> GET_ALLOC (fst scenario_resize) (HDRP 4112) = 1
   \<and> NEXT_BLKP (fst scenario_resize) 4112 = 4176
   \<and> GET_SIZE (fst scenario_resize) (HDRP 4176) = 192
   \<and> GET_ALLOC (fst scenario_resize) (HDRP 4176) = 0"
  by code_simp

theorem shrink_scenario_counterexample:
  "snd scenario_resize = snd scenario_alloc
   \<and> GET_SIZE (fst scenario_resize)
        (HDRP (NEXT_BLKP (fst scenario_resize) (snd scenario_alloc))) \<noteq> 48"
  by code_simp

section \<open>The count reconciliation of the checker\<close>

text \<open>
  C3. Right after \<^verbatim>\<open>mm_init\<close> the heap has one free block and the free list has one node:
  the two counts agree. The checker still prints the count mismatch line: the source
  starts its list counter at 1, counts one more for each link followed, and then compares
  that count less one with the physical count.
\<close>

theorem checker_count_off_by_one:
  "phys_free_count scenario_init = Some 1
   \<and> freelist_length scenario_init = Some 1
   \<and> mm_checkheap scenario_init False = Some [Count_mismatch]
   \<and> checkFreeList scenario_init = Some [Count_mismatch]"
  by code_simp

theorem checker_count_off_by_one_witness:
  "phys_free_count scenario_init = freelist_length scenario_init
   \<and> mm_checkheap scenario_init False = Some [Count_mismatch]"
  using checker_count_off_by_one by simp

section \<open>Block lists and the words that carry them\<close>

lemma extent_append [simp]: "extent (xs @ ys) = extent xs + extent ys"
  by (induction xs) auto

lemma seg_append [simp]: "seg s a (xs @ ys) = (seg s a xs \<and> seg s (a + extent xs) ys)"
  by (induction xs arbitrary: a) (auto simp add: algebra_simps)

lemma blocks_append [simp]: "blocks a (xs @ ys) = blocks a xs @ blocks (a + extent xs) ys"
  by (induction xs arbitrary: a) (auto simp add: algebra_simps)

lemma meta_append [simp]: "meta a (xs @ ys) x = (meta a xs x \<or> meta (a + extent xs) ys x)"
  by (induction xs arbitrary: a) (auto simp add: algebra_simps)

lemma sizes_ok_simps [simp]:
  "sizes_ok []"
  "sizes_ok ((z, al) # bs) = (8 \<le> z \<and> z mod 8 = 0 \<and> (\<not> al \<longrightarrow> 16 \<le> z) \<and> sizes_ok bs)"
  "sizes_ok (xs @ ys) = (sizes_ok xs \<and> sizes_ok ys)"
  by (auto simp add: sizes_ok_def)

lemma extent_ge0: "sizes_ok bs \<Longrightarrow> 0 \<le> extent bs"
  by (induction bs) auto

lemma mod8_add: "(x::int) mod 8 = 0 \<Longrightarrow> y mod 8 = 0 \<Longrightarrow> (x + y) mod 8 = 0"
  by presburger

lemma extent_mod8: "sizes_ok bs \<Longrightarrow> extent bs mod 8 = 0"
  by (induction bs) (auto simp add: mod8_add)

lemma blocks_bounds:
  "(b, z, al) \<in> set (blocks a bs) \<Longrightarrow> sizes_ok bs \<Longrightarrow> a \<le> b \<and> b + z \<le> a + extent bs"
proof (induction bs arbitrary: a)
  case Nil then show ?case by simp
next
  case (Cons x bs)
  obtain z' al' where x: "x = (z', al')" by (cases x)
  from Cons.prems extent_ge0[of bs] Cons.IH[of "a + z'"] show ?case
    by (auto simp add: x)
qed

lemma blocks_sizes:
  "(b, z, al) \<in> set (blocks a bs) \<Longrightarrow> sizes_ok bs \<Longrightarrow> 8 \<le> z \<and> z mod 8 = 0 \<and> (\<not> al \<longrightarrow> 16 \<le> z)"
  by (induction bs arbitrary: a) auto

lemma blocks_aligned:
  "(b, z, al) \<in> set (blocks a bs) \<Longrightarrow> sizes_ok bs \<Longrightarrow> a mod 8 = 0 \<Longrightarrow> b mod 8 = 0"
proof (induction bs arbitrary: a)
  case Nil then show ?case by simp
next
  case (Cons x bs)
  obtain z' al' where x: "x = (z', al')" by (cases x)
  have "(a + z') mod 8 = 0" using Cons.prems by (simp add: x mod8_add)
  with Cons.prems Cons.IH[of "a + z'"] show ?case by (auto simp add: x)
qed

lemma meta_bounds: "meta a bs x \<Longrightarrow> sizes_ok bs \<Longrightarrow> a - 4 \<le> x \<and> x < a + extent bs - 4"
proof (induction bs arbitrary: a)
  case Nil then show ?case by simp
next
  case (Cons y bs)
  obtain z' al' where y: "y = (z', al')" by (cases y)
  from Cons.prems extent_ge0[of bs] Cons.IH[of "a + z'"] show ?case
    by (auto simp add: y)
qed

lemma payload_not_meta:
  "(b, z, al) \<in> set (blocks a bs) \<Longrightarrow> sizes_ok bs \<Longrightarrow> b \<le> x \<Longrightarrow> x < b + z - 8 \<Longrightarrow> \<not> meta a bs x"
proof (induction bs arbitrary: a)
  case Nil then show ?case by simp
next
  case (Cons y bs)
  obtain z' al' where y: "y = (z', al')" by (cases y)
  show ?case
  proof (cases "b = a \<and> z = z' \<and> al = al'")
    case True
    with Cons.prems meta_bounds[of "a + z'" bs x] show ?thesis by (auto simp add: y)
  next
    case False
    with Cons.prems have m: "(b, z, al) \<in> set (blocks (a + z') bs)" by (auto simp add: y)
    from blocks_bounds[OF m] Cons.prems have "a + z' \<le> b" by (simp add: y)
    with Cons.IH[OF m] Cons.prems show ?thesis by (auto simp add: y)
  qed
qed

lemma blocks_disjoint:
  "(b, z, al) \<in> set (blocks a bs) \<Longrightarrow> (b', z', al') \<in> set (blocks a bs) \<Longrightarrow> sizes_ok bs \<Longrightarrow>
   (b = b' \<and> z = z' \<and> al = al') \<or> b + z \<le> b' \<or> b' + z' \<le> b"
proof (induction bs arbitrary: a)
  case Nil then show ?case by simp
next
  case (Cons y bs)
  obtain z0 al0 where y: "y = (z0, al0)" by (cases y)
  from Cons.prems blocks_bounds[of b z al "a + z0" bs] blocks_bounds[of b' z' al' "a + z0" bs]
    Cons.IH[of "a + z0"]
  show ?case by (auto simp add: y)
qed

text \<open>Memory that agrees on the four bytes of a word gives the same word.\<close>

lemma GET_cong: "(\<forall>x. p \<le> x \<and> x < p + 4 \<longrightarrow> mem s' x = mem s x) \<Longrightarrow> GET s' p = GET s p"
  by (simp add: GET_def)

lemma seg_agree:
  "(\<forall>x. meta a bs x \<longrightarrow> mem s' x = mem s x) \<Longrightarrow> sizes_ok bs \<Longrightarrow> seg s' a bs = seg s a bs"
proof (induction bs arbitrary: a)
  case Nil then show ?case by simp
next
  case (Cons y bs)
  obtain z al where y: "y = (z, al)" by (cases y)
  have h: "GET s' (a - 4) = GET s (a - 4)"
    by (rule GET_cong) (use Cons.prems in \<open>auto simp add: y\<close>)
  have f: "GET s' (a + z - 8) = GET s (a + z - 8)"
    by (rule GET_cong) (use Cons.prems in \<open>auto simp add: y\<close>)
  have r: "seg s' (a + z) bs = seg s (a + z) bs"
    by (rule Cons.IH) (use Cons.prems in \<open>auto simp add: y\<close>)
  show ?case by (simp add: y h f r)
qed

lemma GET_tag_size: "GET s p = tag z al \<Longrightarrow> z mod 8 = 0 \<Longrightarrow> GET_SIZE s p = z"
  by (auto simp add: GET_SIZE_eq tag_def)

lemma GET_tag_alloc: "GET s p = tag z al \<Longrightarrow> z mod 8 = 0 \<Longrightarrow> GET_ALLOC s p = (if al then 1 else 0)"
  by (auto simp add: GET_ALLOC_eq tag_def) presburger+

section \<open>The free list as a doubly linked list\<close>

lemma PUT_fields [simp]:
  "mem_brk (PUT s p v) = mem_brk s" "mem_start_brk (PUT s p v) = mem_start_brk s"
  "mem_max_addr (PUT s p v) = mem_max_addr s" "heap_listp (PUT s p v) = heap_listp s"
  "freelist (PUT s p v) = freelist s" "sbrk_calls (PUT s p v) = sbrk_calls s"
  by (simp_all add: PUT_def)

lemma mem_PUT_other: "x < p \<or> p + 4 \<le> x \<Longrightarrow> mem (PUT s p v) x = mem s x"
  by (auto simp add: PUT_def)

lemma GET_freelist_upd [simp]: "GET (s\<lparr>freelist := f\<rparr>) p = GET s p"
  by (simp add: GET_def)

lemma u32_id: "0 \<le> x \<Longrightarrow> x < 4294967296 \<Longrightarrow> u32 x = x"
  by (simp add: u32_def)

lemma prv_simps [simp]: "prv s [] p = p" "prv s (xs @ [x]) p = x - heap_listp s"
  by (simp_all add: prv_def)

lemma nxt_append: "nxt s (xs @ ys) n = nxt s xs (nxt s ys n)"
  by (cases xs) auto

lemma dl_append: "dl s p (xs @ ys) n = (dl s p xs (nxt s ys n) \<and> dl s (prv s xs p) ys n)"
proof (induction xs arbitrary: p)
  case Nil then show ?case by simp
next
  case (Cons a xs)
  show ?case
  proof (cases xs)
    case Nil then show ?thesis by (simp add: prv_def)
  next
    case (Cons c cs) with Cons.IH show ?thesis by (simp add: prv_def nxt_append)
  qed
qed

lemma dl_agree:
  "(\<forall>a\<in>set as. \<forall>x. a \<le> x \<and> x < a + 8 \<longrightarrow> mem s' x = mem s x) \<Longrightarrow>
   heap_listp s' = heap_listp s \<Longrightarrow> dl s' p as n = dl s p as n"
proof (induction as arbitrary: p)
  case Nil then show ?case by simp
next
  case (Cons a as)
  have g1: "GET s' a = GET s a" by (rule GET_cong) (use Cons.prems in auto)
  have g2: "GET s' (a + 4) = GET s (a + 4)" by (rule GET_cong) (use Cons.prems in auto)
  have n: "nxt s' as n = nxt s as n" using Cons.prems(2) by (cases as) auto
  have r: "dl s' (a - heap_listp s) as n = dl s (a - heap_listp s) as n"
    by (rule Cons.IH) (use Cons.prems in auto)
  show ?case by (simp add: g1 g2 n r Cons.prems(2))
qed

lemma dl_PUT:
  "\<forall>a\<in>set as. p + 4 \<le> a \<or> a + 8 \<le> p \<Longrightarrow> dl (PUT s p v) q as n = dl s q as n"
  by (rule dl_agree) (auto simp add: mem_PUT_other)

lemma dl_freelist_upd [simp]: "dl (s\<lparr>freelist := f\<rparr>) p as n = dl s p as n"
  by (rule dl_agree) auto

lemma nodes_ok_PUT [simp]: "nodes_ok (PUT s p v) fl = nodes_ok s fl"
  by (simp add: nodes_ok_def)

lemma nodes_ok_freelist_upd [simp]: "nodes_ok (s\<lparr>freelist := f\<rparr>) fl = nodes_ok s fl"
  by (simp add: nodes_ok_def)

lemma nxt_PUT [simp]: "nxt (PUT s p v) as n = nxt s as n"
  by (cases as) auto

lemma nxt_freelist_upd [simp]: "nxt (s\<lparr>freelist := f\<rparr>) as n = nxt s as n"
  by (cases as) auto

lemma apart: "(a::int) mod 8 = 0 \<Longrightarrow> b mod 8 = 0 \<Longrightarrow> a \<noteq> b \<Longrightarrow> a + 8 \<le> b \<or> b + 8 \<le> a"
  by presburger

lemma nodes_apart:
  "nodes_ok s fl \<Longrightarrow> a \<in> set fl \<Longrightarrow> b \<in> set fl \<Longrightarrow> a \<noteq> b \<Longrightarrow> a + 8 \<le> b \<or> b + 8 \<le> a"
  by (rule apart) (auto simp add: nodes_ok_def)

lemma nxt_pos: "nodes_ok s fl \<Longrightarrow> fl \<noteq> [] \<Longrightarrow> 0 < nxt s fl n \<and> nxt s fl n < 4294967296"
  by (cases fl) (auto simp add: nodes_ok_def)

lemma prv_pos: "nodes_ok s fl \<Longrightarrow> fl \<noteq> [] \<Longrightarrow> 0 < prv s fl n \<and> prv s fl n < 4294967296"
  by (auto simp add: nodes_ok_def prv_def)

lemma touches_refl: "touches s s ns"
  by (simp add: touches_def)

lemma touches_freelist: "touches s (s\<lparr>freelist := f\<rparr>) ns"
  by (simp add: touches_def)

lemma touches_PUT:
  "touches s s' ns \<Longrightarrow> a \<in> set ns \<Longrightarrow> p = a \<or> p = a + 4 \<Longrightarrow> touches s (PUT s' p v) ns"
proof -
  assume t: "touches s s' ns" and a: "a \<in> set ns" and p: "p = a \<or> p = a + 4"
  have "mem (PUT s' p v) x = mem s x" if x: "\<forall>a\<in>set ns. x < a \<or> a + 8 \<le> x" for x
  proof -
    from x a have "x < a \<or> a + 8 \<le> x" by blast
    with p have "x < p \<or> p + 4 \<le> x" by auto
    then have "mem (PUT s' p v) x = mem s' x" by (rule mem_PUT_other)
    with t x show ?thesis by (simp add: touches_def)
  qed
  with t show ?thesis by (simp add: touches_def)
qed

lemma prv_PUT [simp]: "prv (PUT s p v) xs n = prv s xs n"
  by (simp add: prv_def)

lemma prv_freelist_upd [simp]: "prv (s\<lparr>freelist := f\<rparr>) xs n = prv s xs n"
  by (simp add: prv_def)

lemma apart_set:
  assumes "\<forall>a\<in>set as. (a::int) mod 8 = 0" "y mod 8 = 0" "y \<notin> set as"
  shows "\<forall>a\<in>set as. (y + 4 \<le> a \<or> a + 8 \<le> y) \<and> (y + 4 + 4 \<le> a \<or> a + 8 \<le> y + 4)"
proof
  fix a assume a: "a \<in> set as"
  with assms have "a mod 8 = 0" "a \<noteq> y" by auto
  from apart[OF this(1) assms(2) this(2)]
  show "(y + 4 \<le> a \<or> a + 8 \<le> y) \<and> (y + 4 + 4 \<le> a \<or> a + 8 \<le> y + 4)" by auto
qed

lemma nodes_aligned: "nodes_ok s fl \<Longrightarrow> \<forall>a\<in>set fl. a mod 8 = 0"
  by (simp add: nodes_ok_def)

lemma removeFromFreeList_spec:
  assumes ok: "fl_ok s (xs @ b # ys)"
  shows "fl_ok (removeFromFreeList s b) (xs @ ys) \<and> touches s (removeFromFreeList s b) (xs @ ys)"
proof -
  let ?h = "heap_listp s"
  from ok have fr: "freelist s = nxt s (xs @ b # ys) 0" and d: "dl s 0 (xs @ b # ys) 0"
    and n: "nodes_ok s (xs @ b # ys)" by (simp_all add: fl_ok_def)
  from d have dx: "dl s 0 xs (b - ?h)" and gb: "GET s b = prv s xs 0"
    and gb4: "GET s (b + 4) = nxt s ys 0" and dy: "dl s (b - ?h) ys 0"
    by (simp_all add: dl_append)
  from n have nx: "nodes_ok s xs" and ny: "nodes_ok s ys" and nxy: "nodes_ok s (xs @ ys)"
    by (auto simp add: nodes_ok_def)
  show ?thesis
  proof (cases xs rule: rev_cases)
    case Nil
    note xs = Nil
    show ?thesis
    proof (cases ys)
      case Nil
      with xs gb gb4 show ?thesis
        by (simp add: removeFromFreeList_def WSIZE_def fl_ok_def nodes_ok_def touches_def)
    next
      case (Cons y ys')
      from n Cons have y: "y mod 8 = 0" "?h < y" "y - ?h < 4294967296" "y \<notin> set ys'"
        by (auto simp add: nodes_ok_def)
      have ap: "\<forall>a\<in>set ys'. y + 4 \<le> a \<or> a + 8 \<le> y"
        using apart_set[OF _ y(1) y(4)] nodes_aligned[OF ny] Cons by auto
      have r: "removeFromFreeList s b = PUT (s\<lparr>freelist := y - ?h\<rparr>) y 0"
        using xs Cons gb gb4 y by (simp add: removeFromFreeList_def WSIZE_def Let_def GET_ADDR_def)
      have "fl_ok (PUT (s\<lparr>freelist := y - ?h\<rparr>) y 0) (y # ys')"
        using dy Cons nxy xs ap
        by (auto simp add: fl_ok_def GET_PUT_same GET_PUT_other u32_def dl_PUT)
      moreover have "touches s (PUT (s\<lparr>freelist := y - ?h\<rparr>) y 0) (y # ys')"
        by (auto simp add: touches_def mem_PUT_other)
      ultimately show ?thesis using r xs Cons by simp
    qed
  next
    case (snoc xs' x)
    note xs = snoc
    from n xs have x: "x mod 8 = 0" "?h < x" "x - ?h < 4294967296" "x \<notin> set xs'" "x \<notin> set ys"
      by (auto simp add: nodes_ok_def)
    from dx xs have dx': "dl s 0 xs' (x - ?h)" and gx: "GET s x = prv s xs' 0"
      by (simp_all add: dl_append)
    have apx: "\<forall>a\<in>set xs'. x + 4 + 4 \<le> a \<or> a + 8 \<le> x + 4"
      using apart_set[OF _ x(1) x(4)] nodes_aligned[OF nx] xs by auto
    have fr': "freelist s = nxt s (xs @ ys) 0" using fr xs by (simp add: nxt_append)
    show ?thesis
    proof (cases ys)
      case Nil
      have r: "removeFromFreeList s b = PUT s (x + 4) 0"
        using xs Nil gb gb4 x by (simp add: removeFromFreeList_def WSIZE_def Let_def GET_ADDR_def)
      have "fl_ok (PUT s (x + 4) 0) (xs' @ [x])"
        using dx' gx nx xs apx fr' Nil
        by (auto simp add: fl_ok_def GET_PUT_same GET_PUT_other u32_def dl_PUT dl_append)
      moreover have "touches s (PUT s (x + 4) 0) (xs' @ [x])"
        by (auto simp add: touches_def mem_PUT_other)
      ultimately show ?thesis using r xs Nil by simp
    next
      case (Cons y ys')
      from n Cons have y: "y mod 8 = 0" "?h < y" "y - ?h < 4294967296" "y \<notin> set ys'" "y \<notin> set xs"
        by (auto simp add: nodes_ok_def)
      have xy: "x + 8 \<le> y \<or> y + 8 \<le> x"
        using apart[OF x(1) y(1)] y(5) xs by auto
      have apy: "\<forall>a\<in>set ys'. y + 4 \<le> a \<or> a + 8 \<le> y"
        using apart_set[OF _ y(1) y(4)] nodes_aligned[OF ny] Cons by auto
      have apxy: "\<forall>a\<in>set ys'. x + 4 + 4 \<le> a \<or> a + 8 \<le> x + 4"
        using apart_set[OF _ x(1), of ys'] x(5) nodes_aligned[OF ny] Cons by auto
      have apyx: "\<forall>a\<in>set xs'. y + 4 \<le> a \<or> a + 8 \<le> y"
        using apart_set[OF _ y(1), of xs'] y(5) nodes_aligned[OF nx] xs by auto
      have r: "removeFromFreeList s b = PUT (PUT s (x + 4) (y - ?h)) y (x - ?h)"
        using xs Cons gb gb4 x y by (simp add: removeFromFreeList_def WSIZE_def Let_def GET_ADDR_def)
      have "fl_ok (PUT (PUT s (x + 4) (y - ?h)) y (x - ?h)) (xs' @ [x] @ y # ys')"
        using dx' gx dy nxy xs Cons apx apy apxy apyx fr' xy x y
        by (auto simp add: fl_ok_def GET_PUT_same GET_PUT_other u32_def dl_PUT dl_append)
      moreover have "touches s (PUT (PUT s (x + 4) (y - ?h)) y (x - ?h)) (xs' @ [x] @ y # ys')"
        by (auto simp add: touches_def mem_PUT_other)
      ultimately show ?thesis using r xs Cons by simp
    qed
  qed
qed

lemma addToFreeList_spec:
  assumes ok: "fl_ok s fl" and b: "b \<notin> set fl" "b mod 8 = 0" "heap_listp s < b"
    "b - heap_listp s < 4294967296"
  shows "fl_ok (addToFreeList s b) (b # fl) \<and> touches s (addToFreeList s b) (b # fl)"
proof -
  let ?h = "heap_listp s"
  from ok have fr: "freelist s = nxt s fl 0" and d: "dl s 0 fl 0"
    and n: "nodes_ok s fl" by (simp_all add: fl_ok_def)
  have nb: "nodes_ok s (b # fl)" using n b by (simp add: nodes_ok_def)
  have apb: "\<forall>a\<in>set fl. b + 4 \<le> a \<or> a + 8 \<le> b" "\<forall>a\<in>set fl. b + 4 + 4 \<le> a \<or> a + 8 \<le> b + 4"
    using apart_set[OF nodes_aligned[OF n] b(2) b(1)] by auto
  show ?thesis
  proof (cases fl)
    case Nil
    have r: "addToFreeList s b = (PUT (PUT s b 0) (b + 4) 0)\<lparr>freelist := b - ?h\<rparr>"
      using Nil fr b by (simp add: addToFreeList_def WSIZE_def Let_def GET_ADDR_INDEX_def u32_def)
    have "fl_ok ((PUT (PUT s b 0) (b + 4) 0)\<lparr>freelist := b - ?h\<rparr>) [b]"
      using nb Nil by (simp add: fl_ok_def GET_PUT_same GET_PUT_other u32_def)
    moreover have "touches s ((PUT (PUT s b 0) (b + 4) 0)\<lparr>freelist := b - ?h\<rparr>) [b]"
      by (simp add: touches_def mem_PUT_other)
    ultimately show ?thesis using r Nil by simp
  next
    case (Cons y ys')
    from n Cons have y: "y mod 8 = 0" "?h < y" "y - ?h < 4294967296" "y \<notin> set ys'" "y \<noteq> b"
      using b(1) by (auto simp add: nodes_ok_def)
    have bny: "b + 8 \<le> y \<or> y + 8 \<le> b" using apart[OF b(2) y(1)] y(5) by auto
    have apy: "\<forall>a\<in>set ys'. y + 4 \<le> a \<or> a + 8 \<le> y"
      using apart_set[OF _ y(1) y(4)] nodes_aligned[OF n] Cons by auto
    have r: "addToFreeList s b = (PUT (PUT (PUT s b 0) (b + 4) (y - ?h)) y (b - ?h))\<lparr>freelist := b - ?h\<rparr>"
      using Cons fr b y by (simp add: addToFreeList_def WSIZE_def Let_def GET_ADDR_INDEX_def GET_ADDR_def u32_def)
    from d Cons have gy4: "GET s (y + 4) = nxt s ys' 0" and dy: "dl s (y - ?h) ys' 0" by simp_all
    have "fl_ok ((PUT (PUT (PUT s b 0) (b + 4) (y - ?h)) y (b - ?h))\<lparr>freelist := b - ?h\<rparr>) (b # y # ys')"
      using nb Cons gy4 dy bny apy apb b y
      by (auto simp add: fl_ok_def GET_PUT_same GET_PUT_other u32_def dl_PUT)
    moreover have "touches s ((PUT (PUT (PUT s b 0) (b + 4) (y - ?h)) y (b - ?h))\<lparr>freelist := b - ?h\<rparr>) (b # y # ys')"
      by (auto simp add: touches_def mem_PUT_other)
    ultimately show ?thesis using r Cons by simp
  qed
qed

section \<open>The chain of blocks between prologue and epilogue\<close>

lemma big_simps [simp]:
  "big []" "big ((z, al) # bs) = (16 \<le> z \<and> z mod 8 = 0 \<and> big bs)"
  "big (xs @ ys) = (big xs \<and> big ys)"
  by (auto simp add: big_def)

lemma big_sizes_ok: "big bs \<Longrightarrow> sizes_ok bs"
  by (auto simp add: big_def sizes_ok_def)

lemma chain_sizes_ok: "chain_ok s bs \<Longrightarrow> sizes_ok bs"
  by (cases bs) (auto simp add: chain_ok_def big_sizes_ok)

lemma frees_append [simp]: "frees a (xs @ ys) = frees a xs \<union> frees (a + extent xs) ys"
  by (induction xs arbitrary: a) (auto simp add: algebra_simps)

lemma allocs_append [simp]: "allocs a (xs @ ys) = allocs a xs \<union> allocs (a + extent xs) ys"
  by (induction xs arbitrary: a) (auto simp add: algebra_simps)

lemma frees_blocks: "(x \<in> frees a bs) = (\<exists>z. (x, z, False) \<in> set (blocks a bs))"
  by (induction a bs rule: frees.induct) (auto split: if_splits)

lemma allocs_blocks: "((x, z) \<in> allocs a bs) = ((x, z, True) \<in> set (blocks a bs))"
  by (induction a bs rule: allocs.induct) (auto split: if_splits)

lemma frees_bounds: "x \<in> frees a bs \<Longrightarrow> sizes_ok bs \<Longrightarrow> a \<le> x \<and> x + 16 \<le> a + extent bs"
  using blocks_bounds blocks_sizes by (fastforce simp add: frees_blocks)

lemma frees_aligned: "x \<in> frees a bs \<Longrightarrow> sizes_ok bs \<Longrightarrow> a mod 8 = 0 \<Longrightarrow> x mod 8 = 0"
  using blocks_aligned by (fastforce simp add: frees_blocks)

lemma allocs_bounds: "(x, z) \<in> allocs a bs \<Longrightarrow> sizes_ok bs \<Longrightarrow> a \<le> x \<and> x + z \<le> a + extent bs \<and> 8 \<le> z"
  using blocks_bounds blocks_sizes by (fastforce simp add: allocs_blocks)

lemma naf_append:
  "naf (xs @ ys) = (naf xs \<and> naf ys \<and> (xs = [] \<or> ys = [] \<or> snd (last xs) \<or> snd (hd ys)))"
proof (induction xs rule: naf.induct)
  case 1 then show ?case by simp
next
  case (2 x)
  obtain z al where x: "x = (z, al)" by (cases x)
  show ?case
  proof (cases ys)
    case Nil then show ?thesis by simp
  next
    case (Cons y ys')
    obtain z' al' where y: "y = (z', al')" by (cases y)
    show ?thesis by (auto simp add: Cons x y)
  qed
next
  case (3 z al z' al' bs) then show ?case by auto
qed

lemma region_mem: "region s s' lo hi \<Longrightarrow> x < lo \<or> hi \<le> x \<Longrightarrow> mem s' x = mem s x"
  unfolding region_def by blast

lemma chain_okD:
  assumes "chain_ok s bs"
  shows "0 \<le> mem_start_brk s" "mem_start_brk s mod 8 = 0" "heap_listp s = mem_start_brk s + 8"
    "mem_brk s \<le> mem_max_addr s" "mem_max_addr s - mem_start_brk s < 4294967296"
    "bs \<noteq> []" "hd bs = (8, True)" "big (tl bs)" "seg s (heap_listp s) bs"
    "heap_listp s + extent bs = mem_brk s" "GET s (mem_brk s - 4) = 1"
  using assms unfolding chain_ok_def by blast+

lemma chain_okI:
  assumes "0 \<le> mem_start_brk s" "mem_start_brk s mod 8 = 0" "heap_listp s = mem_start_brk s + 8"
    "mem_brk s \<le> mem_max_addr s" "mem_max_addr s - mem_start_brk s < 4294967296"
    "bs \<noteq> []" "hd bs = (8, True)" "big (tl bs)" "seg s (heap_listp s) bs"
    "heap_listp s + extent bs = mem_brk s" "GET s (mem_brk s - 4) = 1"
  shows "chain_ok s bs"
  using assms unfolding chain_ok_def by blast

lemma region_refl: "region s s lo hi"
  by (simp add: region_def)

lemma region_PUT: "region s s' lo hi \<Longrightarrow> lo \<le> p \<Longrightarrow> p + 4 \<le> hi \<Longrightarrow> region s (PUT s' p v) lo hi"
  by (auto simp add: region_def mem_PUT_other)

lemma region_mono: "region s s' lo hi \<Longrightarrow> lo' \<le> lo \<Longrightarrow> hi \<le> hi' \<Longrightarrow> region s s' lo' hi'"
  by (auto simp add: region_def)

lemma region_trans: "region s s' lo hi \<Longrightarrow> region s' s'' lo hi \<Longrightarrow> region s s'' lo hi"
  by (auto simp add: region_def)

lemma GET_region: "region s s' lo hi \<Longrightarrow> p + 4 \<le> lo \<or> hi \<le> p \<Longrightarrow> GET s' p = GET s p"
  by (rule GET_cong) (auto intro: region_mem)

lemma seg_region:
  assumes "region s s' lo hi" "sizes_ok bs" "a + extent bs - 4 \<le> lo \<or> hi \<le> a - 4"
  shows "seg s' a bs = seg s a bs"
proof (rule seg_agree)
  show "\<forall>x. meta a bs x \<longrightarrow> mem s' x = mem s x"
  proof (intro allI impI)
    fix x assume "meta a bs x"
    from meta_bounds[OF this assms(2)] assms(3) have "x < lo \<or> hi \<le> x" by auto
    with assms(1) show "mem s' x = mem s x" by (rule region_mem)
  qed
qed (rule assms(2))

lemma dl_region:
  assumes "region s s' lo hi" "\<forall>a\<in>set as. a + 8 \<le> lo \<or> hi \<le> a"
  shows "dl s' p as n = dl s p as n"
proof (rule dl_agree)
  show "\<forall>a\<in>set as. \<forall>x. a \<le> x \<and> x < a + 8 \<longrightarrow> mem s' x = mem s x"
  proof (intro ballI allI impI)
    fix a x assume "a \<in> set as" "a \<le> x \<and> x < a + 8"
    with assms(2) have "x < lo \<or> hi \<le> x" by auto
    with assms(1) show "mem s' x = mem s x" by (rule region_mem)
  qed
  show "heap_listp s' = heap_listp s" using assms(1) by (simp add: region_def)
qed

lemma nxt_cong: "heap_listp s' = heap_listp s \<Longrightarrow> nxt s' as n = nxt s as n"
  by (cases as) auto

lemma fl_ok_region:
  assumes "region s s' lo hi" "fl_ok s fl" "\<forall>a\<in>set fl. a + 8 \<le> lo \<or> hi \<le> a"
  shows "fl_ok s' fl"
proof -
  from assms(1) have h: "heap_listp s' = heap_listp s" "freelist s' = freelist s"
    by (simp_all add: region_def)
  from assms(2) dl_region[OF assms(1,3)] show ?thesis
    by (simp add: fl_ok_def nodes_ok_def h nxt_cong[OF h(1)])
qed

lemma chain_retag:
  assumes c: "chain_ok s (pre @ mid @ post)"
    and r: "region s s' (heap_listp s + extent pre - 4) (heap_listp s + extent pre + extent mid - 4)"
    and m: "seg s' (heap_listp s + extent pre) mid'" "extent mid' = extent mid" "big mid'"
    and p: "pre \<noteq> []"
  shows "chain_ok s' (pre @ mid' @ post)"
proof -
  let ?h = "heap_listp s"
  note d = chain_okD[OF c]
  from r have f: "heap_listp s' = ?h" "mem_brk s' = mem_brk s" "mem_start_brk s' = mem_start_brk s"
    "mem_max_addr s' = mem_max_addr s" by (simp_all add: region_def)
  from chain_sizes_ok[OF c] have so: "sizes_ok pre" "sizes_ok mid" "sizes_ok post" by simp_all
  from d(9) have sg: "seg s ?h pre" "seg s (?h + extent pre + extent mid) post"
    by (simp_all add: algebra_simps)
  have s1: "seg s' ?h pre" using seg_region[OF r so(1), of ?h] sg(1) by simp
  have s2: "seg s' (?h + extent pre + extent mid) post"
    using seg_region[OF r so(3), of "?h + extent pre + extent mid"] sg(2) by simp
  from d(10) have brk: "?h + extent pre + extent mid + extent post = mem_brk s"
    by (simp add: algebra_simps)
  have "GET s' (mem_brk s - 4) = GET s (mem_brk s - 4)"
    by (rule GET_region[OF r]) (use brk extent_ge0[OF so(3)] in auto)
  with d(11) have e: "GET s' (mem_brk s - 4) = 1" by simp
  from d(7,8) p have hd: "hd (pre @ mid' @ post) = (8, True)" "big (tl (pre @ mid' @ post))"
    using m(3) by (cases pre; auto)+
  show ?thesis
  proof (rule chain_okI)
    show "seg s' (heap_listp s') (pre @ mid' @ post)"
      using s1 s2 m by (simp add: f algebra_simps)
    show "heap_listp s' + extent (pre @ mid' @ post) = mem_brk s'"
      using brk m by (simp add: f)
    show "GET s' (mem_brk s' - 4) = 1" using e by (simp add: f)
  qed (use d hd p in \<open>simp_all add: f\<close>)
qed

lemma fl_retag:
  assumes c: "sizes_ok pre" "sizes_ok post"
    and r: "region s s' (a + extent pre - 4) (a + extent pre + extent mid - 4)"
    and fl: "fl_ok s fl" "set fl \<subseteq> frees a pre \<union> frees (a + extent pre + extent mid) post"
  shows "fl_ok s' fl"
proof (rule fl_ok_region[OF r fl(1)])
  show "\<forall>x\<in>set fl. x + 8 \<le> a + extent pre - 4 \<or> a + extent pre + extent mid - 4 \<le> x"
  proof
    fix x assume "x \<in> set fl"
    with fl(2) consider "x \<in> frees a pre" | "x \<in> frees (a + extent pre + extent mid) post" by auto
    then show "x + 8 \<le> a + extent pre - 4 \<or> a + extent pre + extent mid - 4 \<le> x"
    proof cases
      case 1 from frees_bounds[OF this c(1)] show ?thesis by auto
    next
      case 2 from frees_bounds[OF this c(2)] show ?thesis by auto
    qed
  qed
qed

lemma chain_touches:
  assumes c: "chain_ok s bs" and t: "touches s s' ns" and n: "set ns \<subseteq> frees (heap_listp s) bs"
  shows "chain_ok s' bs"
proof -
  let ?h = "heap_listp s"
  from t have f: "heap_listp s' = ?h" "mem_brk s' = mem_brk s" "mem_start_brk s' = mem_start_brk s"
    "mem_max_addr s' = mem_max_addr s" by (simp_all add: touches_def)
  note so = chain_sizes_ok[OF c]
  note d = chain_okD[OF c]
  have ag: "mem s' x = mem s x" if "meta ?h bs x \<or> mem_brk s - 4 \<le> x" for x
  proof -
    have "\<forall>a\<in>set ns. x < a \<or> a + 8 \<le> x"
    proof
      fix a assume "a \<in> set ns"
      with n have a: "a \<in> frees ?h bs" by auto
      then obtain z where z: "(a, z, False) \<in> set (blocks ?h bs)" by (auto simp add: frees_blocks)
      from blocks_sizes[OF z so] have z16: "16 \<le> z" by simp
      from blocks_bounds[OF z so] d(10) have bb: "a + z \<le> mem_brk s" by simp
      show "x < a \<or> a + 8 \<le> x"
      proof (rule ccontr)
        assume "\<not> (x < a \<or> a + 8 \<le> x)"
        then have x: "a \<le> x" "x < a + 8" by auto
        with z16 have "x < a + z - 8" by simp
        from payload_not_meta[OF z so x(1) this] that x bb z16 show False by auto
      qed
    qed
    with t show ?thesis by (simp add: touches_def)
  qed
  have sg: "seg s' ?h bs = seg s ?h bs"
    by (rule seg_agree) (use ag so in auto)
  have "GET s' (mem_brk s - 4) = GET s (mem_brk s - 4)"
    by (rule GET_cong) (use ag in auto)
  then have e: "GET s' (mem_brk s' - 4) = 1" using d(11) by (simp add: f)
  show ?thesis
    by (rule chain_okI) (use d sg e in \<open>simp_all add: f\<close>)
qed

lemma GET_PUT_lt: "q + 4 \<le> p \<Longrightarrow> GET (PUT s p v) q = GET s q"
  by (simp add: GET_PUT_other)

lemma GET_PUT_gt: "p + 4 \<le> q \<Longrightarrow> GET (PUT s p v) q = GET s q"
  by (simp add: GET_PUT_other)

lemma mod8_diff: "(x::int) mod 8 = 0 \<Longrightarrow> y mod 8 = 0 \<Longrightarrow> (x - y) mod 8 = 0"
  by presburger

lemma even8: "(z::int) mod 8 = 0 \<Longrightarrow> even z"
  by presburger

lemma PACK_tag: "z mod 8 = 0 \<Longrightarrow> PACK z 1 = tag z True" "PACK z 0 = tag z False"
  by (simp_all add: PACK_def tag_def or_one_eq even8)

lemma GET_PUT_tag: "0 \<le> z \<Longrightarrow> z < 4294967295 \<Longrightarrow> GET (PUT s p (tag z al)) p = tag z al"
  by (simp add: GET_PUT_same u32_def tag_def)

lemma GET_SIZE_PUT_tag:
  "0 \<le> z \<Longrightarrow> z < 4294967295 \<Longrightarrow> z mod 8 = 0 \<Longrightarrow> GET_SIZE (PUT s p (tag z al)) p = z"
  by (simp add: GET_tag_size[OF GET_PUT_tag])

lemma GET_SIZE_PUT_lt: "q + 4 \<le> p \<Longrightarrow> GET_SIZE (PUT s p v) q = GET_SIZE s q"
  by (simp add: GET_SIZE_def GET_PUT_lt)

lemma GET_SIZE_PUT_gt: "p + 4 \<le> q \<Longrightarrow> GET_SIZE (PUT s p v) q = GET_SIZE s q"
  by (simp add: GET_SIZE_def GET_PUT_gt)

lemma GET_ALLOC_PUT_lt: "q + 4 \<le> p \<Longrightarrow> GET_ALLOC (PUT s p v) q = GET_ALLOC s q"
  by (simp add: GET_ALLOC_def GET_PUT_lt)

lemma GET_ALLOC_PUT_gt: "p + 4 \<le> q \<Longrightarrow> GET_ALLOC (PUT s p v) q = GET_ALLOC s q"
  by (simp add: GET_ALLOC_def GET_PUT_gt)

lemma chain_pre:
  assumes "chain_ok s (pre @ rest)" "pre \<noteq> []"
  shows "8 \<le> extent pre" "extent pre mod 8 = 0" "sizes_ok pre" "sizes_ok rest"
    "heap_listp s mod 8 = 0" "(heap_listp s + extent pre) mod 8 = 0" "0 \<le> extent rest"
    "heap_listp s + extent pre + extent rest = mem_brk s"
    "mem_brk s - heap_listp s < 4294967296 - 8" "big rest"
proof -
  note d = chain_okD[OF assms(1)]
  from chain_sizes_ok[OF assms(1)] show so: "sizes_ok pre" "sizes_ok rest" by simp_all
  from d(7) assms(2) obtain pre' where p: "pre = (8, True) # pre'" by (cases pre) auto
  with so have "sizes_ok pre'" by simp
  from extent_ge0[OF this] show "8 \<le> extent pre" by (simp add: p)
  show t8: "extent pre mod 8 = 0" by (rule extent_mod8[OF so(1)])
  show h8: "heap_listp s mod 8 = 0" using d(2,3) by (simp add: mod8_add)
  show "(heap_listp s + extent pre) mod 8 = 0" by (rule mod8_add[OF h8 t8])
  show "0 \<le> extent rest" by (rule extent_ge0[OF so(2)])
  show "heap_listp s + extent pre + extent rest = mem_brk s" using d(10) by (simp add: algebra_simps)
  show "mem_brk s - heap_listp s < 4294967296 - 8" using d(3,4,5) by simp
  show "big rest" using d(8) p by simp
qed

lemma chain_block:
  assumes "chain_ok s (pre @ (z, al) # post)" "pre \<noteq> []" "bp = heap_listp s + extent pre"
  shows "GET s (bp - 4) = tag z al" "GET s (bp + z - 8) = tag z al" "16 \<le> z" "z mod 8 = 0"
    "bp mod 8 = 0" "heap_listp s + 8 \<le> bp" "bp + z + extent post = mem_brk s" "0 \<le> extent post"
    "bp + z - heap_listp s < 4294967296 - 8" "z < 4294967295"
    "GET_SIZE s (bp - 4) = z" "GET_ALLOC s (bp - 4) = (if al then 1 else 0)"
    "GET_SIZE s (bp + z - 8) = z" "GET_ALLOC s (bp + z - 8) = (if al then 1 else 0)"
proof -
  note d = chain_okD[OF assms(1)]
  note p = chain_pre[OF assms(1,2)]
  from d(9) show g: "GET s (bp - 4) = tag z al" "GET s (bp + z - 8) = tag z al"
    by (simp_all add: assms(3))
  from p(10) show z: "16 \<le> z" "z mod 8 = 0" by simp_all
  from p(4) have "sizes_ok post" by simp
  from extent_ge0[OF this] show tp: "0 \<le> extent post" .
  show "bp mod 8 = 0" using p(6) by (simp add: assms(3))
  show "heap_listp s + 8 \<le> bp" using p(1) by (simp add: assms(3))
  show b: "bp + z + extent post = mem_brk s" using p(8) by (simp add: assms(3))
  show "bp + z - heap_listp s < 4294967296 - 8" using p(9) b tp by simp
  show "z < 4294967295" using p(9) b tp p(1) by (simp add: assms(3))
  show "GET_SIZE s (bp - 4) = z" by (rule GET_tag_size[OF g(1) z(2)])
  show "GET_ALLOC s (bp - 4) = (if al then 1 else 0)" by (rule GET_tag_alloc[OF g(1) z(2)])
  show "GET_SIZE s (bp + z - 8) = z" by (rule GET_tag_size[OF g(2) z(2)])
  show "GET_ALLOC s (bp + z - 8) = (if al then 1 else 0)" by (rule GET_tag_alloc[OF g(2) z(2)])
qed

lemma frees_pre_lt: "x \<in> frees a pre \<Longrightarrow> sizes_ok pre \<Longrightarrow> x + 16 \<le> a + extent pre"
  using frees_bounds by blast

lemma frees_post_ge: "x \<in> frees a post \<Longrightarrow> sizes_ok post \<Longrightarrow> a \<le> x"
  using frees_bounds by blast

lemma split_node:
  assumes "set fl = insert b F" "b \<notin> F" "distinct fl"
  obtains xs ys where "fl = xs @ b # ys" "set (xs @ ys) = F"
proof -
  from assms(1) have "b \<in> set fl" by simp
  then obtain xs ys where xy: "fl = xs @ b # ys" by (auto simp add: in_set_conv_decomp)
  with assms(3) have "b \<notin> set xs" "b \<notin> set ys" by auto
  with assms(1,2) xy have "set (xs @ ys) = F" by auto
  with xy that show ?thesis by blast
qed

lemma fl_ok_distinct: "fl_ok s fl \<Longrightarrow> distinct fl"
  by (simp add: fl_ok_def nodes_ok_def)

lemma place_spec:
  assumes c: "chain_ok s (pre @ (c, False) # post)" and pre: "pre \<noteq> []"
    and fl: "fl_ok s fl" "set fl = frees (heap_listp s) (pre @ (c, False) # post)"
    and bp: "bp = heap_listp s + extent pre"
    and a: "16 \<le> asize" "asize mod 8 = 0" "asize \<le> c"
  shows "\<exists>fl'. heap_rel (place s bp asize)
           (pre @ (if 16 \<le> c - asize then [(asize, True), (c - asize, False)] else [(c, True)]) @ post) fl'
           \<and> heap_listp (place s bp asize) = heap_listp s"
proof -
  let ?h = "heap_listp s"
  note b = chain_block[OF c pre bp]
  note p = chain_pre[OF c pre]
  have so: "sizes_ok pre" "sizes_ok post" using p(3,4) by simp_all
  have bpre: "bp \<notin> frees ?h pre" using frees_pre_lt[OF _ so(1), of bp ?h] bp by auto
  have bpost: "bp \<notin> frees (bp + c) post" using frees_post_ge[OF _ so(2), of bp "bp + c"] b(3) by auto
  have "set fl = insert bp (frees ?h pre \<union> frees (bp + c) post)"
    using fl(2) by (simp add: bp algebra_simps)
  from split_node[OF this _ fl_ok_distinct[OF fl(1)]] bpre bpost
  obtain xs ys where xy: "fl = xs @ bp # ys"
    and sxy: "set (xs @ ys) = frees ?h pre \<union> frees (bp + c) post" by blast
  define s1 where "s1 = removeFromFreeList s bp"
  from removeFromFreeList_spec[of s xs bp ys] fl(1) xy
  have f1: "fl_ok s1 (xs @ ys)" and t1: "touches s s1 (xs @ ys)" by (simp_all add: s1_def)
  have h1: "heap_listp s1 = ?h" using t1 by (simp add: touches_def)
  have c1: "chain_ok s1 (pre @ [(c, False)] @ post)"
    using chain_touches[OF c t1] sxy by (auto simp add: bp algebra_simps)
  show ?thesis
  proof (cases "16 \<le> c - asize")
    case True
    define s5 where "s5 = PUT (PUT (PUT (PUT s1 (bp - 4) (tag asize True)) (bp + asize - 8) (tag asize True))
        (bp + asize - 4) (tag (c - asize) False)) (bp + c - 8) (tag (c - asize) False)"
    have r: "region s1 s5 (heap_listp s1 + extent pre - 4) (heap_listp s1 + extent pre + extent [(c, False)] - 4)"
      unfolding s5_def h1 bp[symmetric] using a True
      by (intro region_PUT region_refl) simp_all
    have h5: "heap_listp s5 = ?h" by (simp add: s5_def h1)
    have sg: "seg s5 (heap_listp s1 + extent pre) [(asize, True), (c - asize, False)]"
      unfolding h1 bp[symmetric] s5_def using a True b(10)
      by (simp add: GET_PUT_tag GET_PUT_lt GET_PUT_gt)
    have c5: "chain_ok s5 (pre @ [(asize, True), (c - asize, False)] @ post)"
      by (rule chain_retag[OF c1 r sg _ _ pre]) (use a True b(4) in \<open>simp_all add: mod8_diff\<close>)
    have f5: "fl_ok s5 (xs @ ys)"
      by (rule fl_retag[OF so r[unfolded h1] f1]) (use sxy in \<open>simp add: bp algebra_simps\<close>)
    have pl: "place s bp asize = addToFreeList s5 (bp + asize)"
      using a True b(4,10,11)
      by (simp add: place_def Let_def s1_def[symmetric] s5_def HDRP_def FTRP_def NEXT_BLKP_def
          WSIZE_def DSIZE_def u64_def PACK_tag GET_SIZE_PUT_tag GET_SIZE_PUT_lt GET_SIZE_PUT_gt
          mod8_diff)
    have nin: "bp + asize \<notin> set (xs @ ys)"
      using frees_pre_lt[OF _ so(1), of "bp + asize" ?h] frees_post_ge[OF _ so(2), of "bp + asize" "bp + c"]
        a True sxy bp by auto
    have al: "(bp + asize) mod 8 = 0" using b(5) a(2) by (rule mod8_add)
    from addToFreeList_spec[OF f5 nin al] b(6,9) a True
    have f6: "fl_ok (addToFreeList s5 (bp + asize)) ((bp + asize) # xs @ ys)"
      and t6: "touches s5 (addToFreeList s5 (bp + asize)) ((bp + asize) # xs @ ys)"
      by (simp_all add: h5)
    have h6: "heap_listp (addToFreeList s5 (bp + asize)) = ?h" using t6 by (simp add: touches_def h5)
    have fr: "insert (bp + asize) (set (xs @ ys)) = frees ?h (pre @ [(asize, True), (c - asize, False)] @ post)"
      using sxy by (auto simp add: bp algebra_simps)
    have c6: "chain_ok (addToFreeList s5 (bp + asize)) (pre @ [(asize, True), (c - asize, False)] @ post)"
      by (rule chain_touches[OF c5 t6]) (use fr in \<open>simp add: h5\<close>)
    show ?thesis
      using c6 f6 fr True by (auto simp add: heap_rel_def pl h6)
  next
    case False
    define s3 where "s3 = PUT (PUT s1 (bp - 4) (tag c True)) (bp + c - 8) (tag c True)"
    have r: "region s1 s3 (heap_listp s1 + extent pre - 4) (heap_listp s1 + extent pre + extent [(c, False)] - 4)"
      unfolding s3_def h1 bp[symmetric] using b(3)
      by (intro region_PUT region_refl) simp_all
    have h3: "heap_listp s3 = ?h" by (simp add: s3_def h1)
    have sg: "seg s3 (heap_listp s1 + extent pre) [(c, True)]"
      unfolding h1 bp[symmetric] s3_def using b(3,10)
      by (simp add: GET_PUT_tag GET_PUT_lt GET_PUT_gt)
    have c3: "chain_ok s3 (pre @ [(c, True)] @ post)"
      by (rule chain_retag[OF c1 r sg _ _ pre]) (use b in simp_all)
    have f3: "fl_ok s3 (xs @ ys)"
      by (rule fl_retag[OF so r[unfolded h1] f1]) (use sxy in \<open>simp add: bp algebra_simps\<close>)
    have pl: "place s bp asize = s3"
      using a False b(3,4,10,11)
      by (simp add: place_def Let_def s1_def[symmetric] s3_def HDRP_def FTRP_def NEXT_BLKP_def
          WSIZE_def DSIZE_def u64_def PACK_tag GET_SIZE_PUT_tag GET_SIZE_PUT_lt GET_SIZE_PUT_gt)
    have fr: "set (xs @ ys) = frees ?h (pre @ [(c, True)] @ post)"
      using sxy by (auto simp add: bp algebra_simps)
    show ?thesis
      using c3 f3 fr False by (auto simp add: heap_rel_def pl h3)
  qed
qed

lemma chain_last:
  assumes "chain_ok s (pre0 @ (zp, alp) # rest)" "bp = heap_listp s + extent pre0 + zp"
  shows "GET s (bp - 8) = tag zp alp" "GET s (bp - zp - 4) = tag zp alp" "zp mod 8 = 0" "8 \<le> zp"
    "\<not> alp \<Longrightarrow> pre0 \<noteq> []" "\<not> alp \<Longrightarrow> 16 \<le> zp"
    "GET_SIZE s (bp - 8) = zp" "GET_ALLOC s (bp - 8) = (if alp then 1 else 0)"
    "GET_SIZE s (bp - zp - 4) = zp"
proof -
  note d = chain_okD[OF assms(1)]
  from d(9) show g: "GET s (bp - 8) = tag zp alp" "GET s (bp - zp - 4) = tag zp alp"
    by (simp_all add: assms(2) algebra_simps)
  from chain_sizes_ok[OF assms(1)] show z: "zp mod 8 = 0" "8 \<le> zp" by simp_all
  show "\<not> alp \<Longrightarrow> pre0 \<noteq> []" using d(7) by (cases pre0) auto
  show "\<not> alp \<Longrightarrow> 16 \<le> zp" using chain_sizes_ok[OF assms(1)] by simp
  show "GET_SIZE s (bp - 8) = zp" by (rule GET_tag_size[OF g(1) z(1)])
  show "GET_ALLOC s (bp - 8) = (if alp then 1 else 0)" by (rule GET_tag_alloc[OF g(1) z(1)])
  show "GET_SIZE s (bp - zp - 4) = zp" by (rule GET_tag_size[OF g(2) z(1)])
qed

lemma chain_next_nil:
  assumes "chain_ok s (pre @ [(z, al)])" "pre \<noteq> []" "bp = heap_listp s + extent pre"
  shows "GET_ALLOC s (bp + z - 4) = 1"
  using chain_okD(11)[OF assms(1)] chain_block(7)[OF assms] by (simp add: GET_ALLOC_eq)

lemma chain_next:
  assumes "chain_ok s (pre @ (z, al) # (zn, aln) # post0)" "pre \<noteq> []" "bp = heap_listp s + extent pre"
  shows "GET_ALLOC s (bp + z - 4) = (if aln then 1 else 0)"
    "GET_SIZE s (bp + z - 4) = zn"
    "GET_SIZE s (bp + z + zn - 8) = zn"
    "16 \<le> zn \<and> zn mod 8 = 0 \<and> bp + z + zn \<le> mem_brk s"
proof -
  have c': "chain_ok s ((pre @ [(z, al)]) @ (zn, aln) # post0)" using assms(1) by simp
  have bp': "bp + z = heap_listp s + extent (pre @ [(z, al)])" using assms(3) by simp
  note n = chain_block[OF c' _ bp']
  show "GET_ALLOC s (bp + z - 4) = (if aln then 1 else 0)" using n(12) by simp
  show "GET_SIZE s (bp + z - 4) = zn" using n(11) by simp
  show "GET_SIZE s (bp + z + zn - 8) = zn" using n(13) by simp
  show "16 \<le> zn \<and> zn mod 8 = 0 \<and> bp + z + zn \<le> mem_brk s" using n(3,4,7,8) by simp
qed

section \<open>Coalescing\<close>

lemmas macro_simps = HDRP_def FTRP_def NEXT_BLKP_def PREV_BLKP_def WSIZE_def DSIZE_def

lemma u64_id: "0 \<le> x \<Longrightarrow> x < 18446744073709551616 \<Longrightarrow> u64 x = x"
  by (simp add: u64_def)

lemma coalesce_case1:
  assumes o: "open_rel s pre z post fl" and l: "snd (last pre)" and n: "post = [] \<or> snd (hd post)"
    and bp: "bp = heap_listp s + extent pre"
  shows "coalesce s bp = (s, bp)"
proof -
  from o have c: "chain_ok s (pre @ (z, False) # post)" and pre: "pre \<noteq> []"
    by (simp_all add: open_rel_def)
  from pre l obtain pre0 zp where p: "pre = pre0 @ [(zp, True)]"
    by (cases pre rule: rev_cases) auto
  have c': "chain_ok s (pre0 @ (zp, True) # (z, False) # post)" using c p by simp
  have bp': "bp = heap_listp s + extent pre0 + zp" using bp p by simp
  note la = chain_last[OF c' bp']
  note b = chain_block[OF c pre bp]
  have na: "GET_ALLOC s (bp + z - 4) = 1"
  proof (cases post)
    case Nil then show ?thesis using chain_next_nil[OF _ pre bp, of z False] c by simp
  next
    case (Cons x post0)
    obtain zn aln where x: "x = (zn, aln)" by (cases x)
    with n Cons have "aln" by simp
    with chain_next(1)[OF _ pre bp, of z False zn aln post0] c Cons x show ?thesis by simp
  qed
  show ?thesis
    using la(7,8,9) b(11) na
    by (simp add: coalesce_def Let_def macro_simps)
qed

lemma coalesce_case2:
  assumes o: "open_rel s pre z ((zn, False) # post0) fl" and l: "snd (last pre)"
    and bp: "bp = heap_listp s + extent pre"
  shows "\<exists>s' fl'. coalesce s bp = (s', bp) \<and> open_rel s' pre (z + zn) post0 fl'
           \<and> heap_listp s' = heap_listp s"
proof -
  let ?h = "heap_listp s"
  from o have c: "chain_ok s (pre @ (z, False) # (zn, False) # post0)" and pre: "pre \<noteq> []"
    and fl: "fl_ok s fl" "set fl = frees ?h pre \<union> frees (?h + extent pre + z) ((zn, False) # post0)"
    by (simp_all add: open_rel_def)
  from pre l obtain pre0 zp where p: "pre = pre0 @ [(zp, True)]"
    by (cases pre rule: rev_cases) auto
  have c': "chain_ok s (pre0 @ (zp, True) # (z, False) # (zn, False) # post0)" using c p by simp
  have bp': "bp = ?h + extent pre0 + zp" using bp p by simp
  note la = chain_last[OF c' bp']
  note b = chain_block[OF c pre bp]
  note nx = chain_next[OF c pre bp]
  note cp = chain_pre[OF c pre]
  have so: "sizes_ok pre" "sizes_ok post0" using cp(3,4) by simp_all
  have n1: "bp + z \<notin> frees ?h pre" using frees_pre_lt[OF _ so(1), of "bp + z" ?h] bp b(3) by auto
  have n2: "bp + z \<notin> frees (bp + z + zn) post0"
    using frees_post_ge[OF _ so(2), of "bp + z" "bp + z + zn"] nx(4) by auto
  have "set fl = insert (bp + z) (frees ?h pre \<union> frees (bp + z + zn) post0)"
    using fl(2) by (simp add: bp algebra_simps)
  from split_node[OF this _ fl_ok_distinct[OF fl(1)]] n1 n2
  obtain xs ys where xy: "fl = xs @ (bp + z) # ys"
    and sxy: "set (xs @ ys) = frees ?h pre \<union> frees (bp + z + zn) post0" by blast
  define s1 where "s1 = removeFromFreeList s (bp + z)"
  from removeFromFreeList_spec[of s xs "bp + z" ys] fl(1) xy
  have f1: "fl_ok s1 (xs @ ys)" and t1: "touches s s1 (xs @ ys)" by (simp_all add: s1_def)
  have h1: "heap_listp s1 = ?h" using t1 by (simp add: touches_def)
  have c1: "chain_ok s1 (pre @ (z, False) # (zn, False) # post0)"
    using chain_touches[OF c t1] sxy by (auto simp add: bp algebra_simps)
  have bp1: "bp = heap_listp s1 + extent pre" using bp h1 by simp
  note b1 = chain_block[OF c1 pre bp1]
  note nx1 = chain_next[OF c1 pre bp1]
  define s3 where "s3 = PUT (PUT s1 (bp - 4) (tag (z + zn) False)) (bp + (z + zn) - 8) (tag (z + zn) False)"
  have zz: "0 \<le> z + zn" "z + zn < 4294967295" "(z + zn) mod 8 = 0" "16 \<le> z + zn"
    using b(3,4,7,8,9) nx(4) cp(1,9) bp by (simp_all add: mod8_add)
  have r: "region s1 s3 (heap_listp s1 + extent pre - 4)
             (heap_listp s1 + extent pre + extent [(z, False), (zn, False)] - 4)"
    unfolding s3_def bp1[symmetric] using zz
    by (intro region_PUT region_refl) simp_all
  have h3: "heap_listp s3 = ?h" by (simp add: s3_def h1)
  have sg: "seg s3 (heap_listp s1 + extent pre) [(z + zn, False)]"
    unfolding bp1[symmetric] s3_def using zz
    by (simp add: GET_PUT_tag GET_PUT_lt GET_PUT_gt)
  have c1': "chain_ok s1 (pre @ [(z, False), (zn, False)] @ post0)" using c1 by simp
  have c3: "chain_ok s3 (pre @ [(z + zn, False)] @ post0)"
    by (rule chain_retag[OF c1' r sg _ _ pre]) (use zz in simp_all)
  have f3: "fl_ok s3 (xs @ ys)"
    by (rule fl_retag[OF so r[unfolded h1] f1]) (use sxy in \<open>simp add: bp algebra_simps\<close>)
  have co: "coalesce s bp = (s3, bp)"
    using la(7,8,9) b(11) nx(1) b1(11) nx1(2) zz
    by (simp add: coalesce_def Let_def macro_simps s1_def[symmetric] s3_def u64_id PACK_tag
        GET_SIZE_PUT_tag)
  have "open_rel s3 pre (z + zn) post0 (xs @ ys)"
    using c3 f3 sxy pre by (simp add: open_rel_def h3 bp algebra_simps)
  with co h3 show ?thesis by blast
qed

lemma next_allocated:
  assumes c: "chain_ok s (pre @ (z, al) # post)" and pre: "pre \<noteq> []"
    and n: "post = [] \<or> snd (hd post)" and bp: "bp = heap_listp s + extent pre"
  shows "GET_ALLOC s (bp + z - 4) = 1"
proof (cases post)
  case Nil then show ?thesis using chain_next_nil[OF _ pre bp, of z al] c by simp
next
  case (Cons x post0)
  obtain zn aln where x: "x = (zn, aln)" by (cases x)
  with n Cons have "aln" by simp
  with chain_next(1)[OF _ pre bp, of z al zn aln post0] c Cons x show ?thesis by simp
qed

lemma coalesce_case3:
  assumes o: "open_rel s (pre0 @ [(zp, False)]) z post fl" and n: "post = [] \<or> snd (hd post)"
    and bp: "bp = heap_listp s + extent pre0 + zp"
  shows "\<exists>s' fl'. coalesce s bp = (s', bp - zp) \<and> open_rel s' pre0 (z + zp) post fl'
           \<and> heap_listp s' = heap_listp s"
proof -
  let ?h = "heap_listp s"
  from o have c: "chain_ok s ((pre0 @ [(zp, False)]) @ (z, False) # post)"
    and fl: "fl_ok s fl"
      "set fl = frees ?h (pre0 @ [(zp, False)]) \<union> frees (?h + extent (pre0 @ [(zp, False)]) + z) post"
    by (simp_all add: open_rel_def)
  have bpp: "bp = ?h + extent (pre0 @ [(zp, False)])" using bp by simp
  have c0: "chain_ok s (pre0 @ (zp, False) # (z, False) # post)" using c by simp
  note la = chain_last[OF c0 bp]
  from la(5) have pre0: "pre0 \<noteq> []" by simp
  have bp0: "bp - zp = ?h + extent pre0" using bp by simp
  note b = chain_block[OF c _ bpp]
  note b0 = chain_block[OF c0 pre0 bp0]
  note cp = chain_pre[OF c0 pre0]
  have na: "GET_ALLOC s (bp + z - 4) = 1" by (rule next_allocated[OF c _ n bpp]) simp
  have so: "sizes_ok pre0" "sizes_ok post" using cp(3,4) by simp_all
  have n1: "bp - zp \<notin> frees ?h pre0" using frees_pre_lt[OF _ so(1), of "bp - zp" ?h] bp0 by auto
  have n2: "bp - zp \<notin> frees (bp + z) post"
    using frees_post_ge[OF _ so(2), of "bp - zp" "bp + z"] b(3) b0(3) by auto
  have "set fl = insert (bp - zp) (frees ?h pre0 \<union> frees (bp + z) post)"
    using fl(2) bp by (simp add: algebra_simps)
  from split_node[OF this _ fl_ok_distinct[OF fl(1)]] n1 n2
  obtain xs ys where xy: "fl = xs @ (bp - zp) # ys"
    and sxy: "set (xs @ ys) = frees ?h pre0 \<union> frees (bp + z) post" by blast
  define s1 where "s1 = removeFromFreeList s (bp - zp)"
  from removeFromFreeList_spec[of s xs "bp - zp" ys] fl(1) xy
  have f1: "fl_ok s1 (xs @ ys)" and t1: "touches s s1 (xs @ ys)" by (simp_all add: s1_def)
  have h1: "heap_listp s1 = ?h" using t1 by (simp add: touches_def)
  have c1: "chain_ok s1 (pre0 @ (zp, False) # (z, False) # post)"
    using chain_touches[OF c0 t1] sxy bp by (auto simp add: algebra_simps)
  have bp1: "bp - zp = heap_listp s1 + extent pre0" using bp0 h1 by simp
  note b1 = chain_block[OF c1 pre0 bp1]
  define s3 where "s3 = PUT (PUT s1 (bp - zp - 4) (tag (z + zp) False)) (bp - zp + (z + zp) - 8)
      (tag (z + zp) False)"
  have zz: "0 \<le> z + zp" "z + zp < 4294967295" "(z + zp) mod 8 = 0" "16 \<le> z + zp"
    using b(3,4,7,8,9) b0(3,4) cp(1,9) bp by (simp_all add: mod8_add)
  have r: "region s1 s3 (heap_listp s1 + extent pre0 - 4)
             (heap_listp s1 + extent pre0 + extent [(zp, False), (z, False)] - 4)"
    unfolding s3_def bp1[symmetric] using zz
    by (intro region_PUT region_refl) simp_all
  have h3: "heap_listp s3 = ?h" by (simp add: s3_def h1)
  have sg: "seg s3 (heap_listp s1 + extent pre0) [(z + zp, False)]"
    unfolding bp1[symmetric] s3_def using zz
    by (simp add: GET_PUT_tag GET_PUT_lt GET_PUT_gt)
  have c1': "chain_ok s1 (pre0 @ [(zp, False), (z, False)] @ post)" using c1 by simp
  have c3: "chain_ok s3 (pre0 @ [(z + zp, False)] @ post)"
    by (rule chain_retag[OF c1' r sg _ _ pre0]) (use zz in simp_all)
  have f3: "fl_ok s3 (xs @ ys)"
    by (rule fl_retag[OF so r[unfolded h1] f1]) (use sxy bp in \<open>simp add: algebra_simps\<close>)
  have co: "coalesce s bp = (s3, bp - zp)"
    using la(7,8,9) b(11) na b1(11) zz
    by (simp add: coalesce_def Let_def macro_simps s1_def[symmetric] s3_def u64_id PACK_tag
        GET_SIZE_PUT_tag)
  have "open_rel s3 pre0 (z + zp) post (xs @ ys)"
    using c3 f3 sxy pre0 bp by (simp add: open_rel_def h3 algebra_simps)
  with co h3 show ?thesis by blast
qed

lemma coalesce_case4:
  assumes o: "open_rel s (pre0 @ [(zp, False)]) z ((zn, False) # post0) fl"
    and bp: "bp = heap_listp s + extent pre0 + zp"
  shows "\<exists>s' fl'. coalesce s bp = (s', bp - zp) \<and> open_rel s' pre0 (z + (zp + zn)) post0 fl'
           \<and> heap_listp s' = heap_listp s"
proof -
  let ?h = "heap_listp s"
  from o have c: "chain_ok s ((pre0 @ [(zp, False)]) @ (z, False) # (zn, False) # post0)"
    and fl: "fl_ok s fl"
      "set fl = frees ?h (pre0 @ [(zp, False)])
                \<union> frees (?h + extent (pre0 @ [(zp, False)]) + z) ((zn, False) # post0)"
    by (simp_all add: open_rel_def)
  have bpp: "bp = ?h + extent (pre0 @ [(zp, False)])" using bp by simp
  have c0: "chain_ok s (pre0 @ (zp, False) # (z, False) # (zn, False) # post0)" using c by simp
  note la = chain_last[OF c0 bp]
  from la(5) have pre0: "pre0 \<noteq> []" by simp
  have bp0: "bp - zp = ?h + extent pre0" using bp by simp
  note b = chain_block[OF c _ bpp]
  note b0 = chain_block[OF c0 pre0 bp0]
  note nx = chain_next[OF c _ bpp]
  note cp = chain_pre[OF c0 pre0]
  have so: "sizes_ok pre0" "sizes_ok post0" using cp(3,4) by simp_all
  have zs: "16 \<le> z" "16 \<le> zp" "16 \<le> zn" using b(3) b0(3) nx(4) by simp_all
  have n1: "bp + z \<notin> frees ?h pre0" using frees_pre_lt[OF _ so(1), of "bp + z" ?h] bp0 zs by auto
  have n2: "bp + z \<notin> frees (bp + z + zn) post0"
    using frees_post_ge[OF _ so(2), of "bp + z" "bp + z + zn"] zs by auto
  have n3: "bp - zp \<notin> frees ?h pre0" using frees_pre_lt[OF _ so(1), of "bp - zp" ?h] bp0 by auto
  have n4: "bp - zp \<notin> frees (bp + z + zn) post0"
    using frees_post_ge[OF _ so(2), of "bp - zp" "bp + z + zn"] zs by auto
  have "set fl = insert (bp + z) (insert (bp - zp) (frees ?h pre0 \<union> frees (bp + z + zn) post0))"
    using fl(2) bp by (auto simp add: algebra_simps)
  from split_node[OF this _ fl_ok_distinct[OF fl(1)]] n1 n2 zs
  obtain xs ys where xy: "fl = xs @ (bp + z) # ys"
    and sxy: "set (xs @ ys) = insert (bp - zp) (frees ?h pre0 \<union> frees (bp + z + zn) post0)"
    by auto
  define s1 where "s1 = removeFromFreeList s (bp + z)"
  from removeFromFreeList_spec[of s xs "bp + z" ys] fl(1) xy
  have f1: "fl_ok s1 (xs @ ys)" and t1: "touches s s1 (xs @ ys)" by (simp_all add: s1_def)
  have h1: "heap_listp s1 = ?h" using t1 by (simp add: touches_def)
  have c1: "chain_ok s1 (pre0 @ (zp, False) # (z, False) # (zn, False) # post0)"
    using chain_touches[OF c0 t1] sxy bp by (auto simp add: algebra_simps)
  have bp1: "bp = heap_listp s1 + extent pre0 + zp" using bp h1 by simp
  note la1 = chain_last[OF c1 bp1]
  from split_node[OF sxy _ fl_ok_distinct[OF f1]] n3 n4
  obtain xs' ys' where xy': "xs @ ys = xs' @ (bp - zp) # ys'"
    and sxy': "set (xs' @ ys') = frees ?h pre0 \<union> frees (bp + z + zn) post0" by blast
  define s2 where "s2 = removeFromFreeList s1 (bp - zp)"
  from removeFromFreeList_spec[of s1 xs' "bp - zp" ys'] f1 xy'
  have f2: "fl_ok s2 (xs' @ ys')" and t2: "touches s1 s2 (xs' @ ys')" by (simp_all add: s2_def)
  have h2: "heap_listp s2 = ?h" using t2 h1 by (simp add: touches_def)
  have c2: "chain_ok s2 (pre0 @ (zp, False) # (z, False) # (zn, False) # post0)"
    using chain_touches[OF c1 t2] sxy' bp by (auto simp add: h1 algebra_simps)
  have bp2: "bp - zp = heap_listp s2 + extent pre0" using bp0 h2 by simp
  define Z where "Z = z + (zp + zn)"
  define s4 where "s4 = PUT (PUT s2 (bp - zp - 4) (tag Z False)) (bp - zp + Z - 8) (tag Z False)"
  have zz: "0 \<le> Z" "Z < 4294967295" "Z mod 8 = 0" "16 \<le> Z" "zp + zn < 4294967296" "0 \<le> zp + zn"
    using b(3,4,7,8,9) b0(3,4) nx(4) cp(1,9) bp by (simp_all add: mod8_add Z_def)
  have r: "region s2 s4 (heap_listp s2 + extent pre0 - 4)
             (heap_listp s2 + extent pre0 + extent [(zp, False), (z, False), (zn, False)] - 4)"
    unfolding s4_def bp2[symmetric] using zz zs
    by (intro region_PUT region_refl) (simp_all add: Z_def)
  have h4: "heap_listp s4 = ?h" by (simp add: s4_def h2)
  have sg: "seg s4 (heap_listp s2 + extent pre0) [(Z, False)]"
    unfolding bp2[symmetric] s4_def using zz
    by (simp add: GET_PUT_tag GET_PUT_lt GET_PUT_gt)
  have c2': "chain_ok s2 (pre0 @ [(zp, False), (z, False), (zn, False)] @ post0)" using c2 by simp
  have c4: "chain_ok s4 (pre0 @ [(Z, False)] @ post0)"
    by (rule chain_retag[OF c2' r sg _ _ pre0]) (use zz in \<open>simp_all add: Z_def\<close>)
  have f4: "fl_ok s4 (xs' @ ys')"
    by (rule fl_retag[OF so r[unfolded h2] f2]) (use sxy' bp in \<open>simp add: algebra_simps\<close>)
  have co: "coalesce s bp = (s4, bp - zp)"
    using la(7,8,9) b(11) nx(1,2,3) la1(7) zz
    by (simp add: coalesce_def Let_def macro_simps s1_def[symmetric] s2_def[symmetric] s4_def
        u64_id u32_id PACK_tag GET_SIZE_PUT_tag Z_def[symmetric])
  have "open_rel s4 pre0 Z post0 (xs' @ ys')"
    using c4 f4 sxy' pre0 bp by (simp add: open_rel_def h4 algebra_simps Z_def)
  with co h4 show ?thesis unfolding Z_def by blast
qed

lemma naf_free_cons: "naf ((z, False) # post) = ((post = [] \<or> snd (hd post)) \<and> naf post)"
  by (cases post) auto

lemma naf_snoc_free: "naf (pre @ [(z, False)]) = ((pre = [] \<or> snd (last pre)) \<and> naf pre)"
  by (auto simp add: naf_append)

lemma naf_alloc_cons: "naf ((z, True) # post) = naf post"
  by (cases post) auto

lemma naf_mid:
  "naf (pre @ (z, al) # post) =
     (naf pre \<and> naf post \<and> (al \<or> ((pre = [] \<or> snd (last pre)) \<and> (post = [] \<or> snd (hd post)))))"
  by (cases al; cases post; auto simp add: naf_append)

lemma coalesce_spec:
  assumes o: "open_rel s pre z post fl" and n: "naf pre" "naf post"
    and bp: "bp = heap_listp s + extent pre"
  shows "\<exists>s' pre' z' post' fl'.
           coalesce s bp = (s', heap_listp s + extent pre') \<and> open_rel s' pre' z' post' fl'
           \<and> heap_listp s' = heap_listp s \<and> naf (pre' @ (z', False) # post')
           \<and> allocs (heap_listp s) (pre' @ (z', False) # post')
               = allocs (heap_listp s) (pre @ (z, False) # post)
           \<and> (snd (last pre) \<longrightarrow> pre' = pre) \<and> z \<le> z' \<and> (post = [] \<longrightarrow> post' = [])
           \<and> extent pre' + z' + extent post' = extent pre + z + extent post"
proof -
  let ?h = "heap_listp s"
  from o have c: "chain_ok s (pre @ (z, False) # post)" and pre: "pre \<noteq> []"
    by (simp_all add: open_rel_def)
  note b = chain_block[OF c pre bp]
  from pre obtain pre0 zp alp where p: "pre = pre0 @ [(zp, alp)]"
    by (cases pre rule: rev_cases) auto
  show ?thesis
  proof (cases alp)
    case True
    then have l: "snd (last pre)" by (simp add: p)
    show ?thesis
    proof (cases "post = [] \<or> snd (hd post)")
      case True
      from coalesce_case1[OF o l True bp] have "coalesce s bp = (s, ?h + extent pre)" by (simp add: bp)
      moreover have "naf (pre @ (z, False) # post)" using n l True pre by (simp add: naf_mid)
      ultimately show ?thesis
        by (intro exI[of _ s] exI[of _ pre] exI[of _ z] exI[of _ post] exI[of _ fl])
           (use o in simp)
    next
      case False
      then obtain zn post0 where q: "post = (zn, False) # post0" by (cases post) auto
      from coalesce_case2[OF o[unfolded q] l bp]
      obtain s' fl' where r: "coalesce s bp = (s', bp)" "open_rel s' pre (z + zn) post0 fl'"
        "heap_listp s' = ?h" by blast
      have "naf (pre @ (z + zn, False) # post0)" using n l q pre by (simp add: naf_mid naf_free_cons)
      moreover have "allocs ?h (pre @ (z + zn, False) # post0) = allocs ?h (pre @ (z, False) # post)"
        by (simp add: q algebra_simps)
      moreover have "0 \<le> zn" using chain_next(4)[OF c[unfolded q] pre bp] by simp
      ultimately show ?thesis
        by (intro exI[of _ s'] exI[of _ pre] exI[of _ "z + zn"] exI[of _ post0] exI[of _ fl'])
           (use r in \<open>simp add: bp q\<close>)
    qed
  next
    case False
    have bp': "bp = ?h + extent pre0 + zp" using bp p by simp
    have c0: "chain_ok s (pre0 @ (zp, False) # (z, False) # post)" using c p False by simp
    note la = chain_last[OF c0 bp']
    have npre0: "naf pre0" "pre0 = [] \<or> snd (last pre0)" using n(1) p False by (auto simp add: naf_snoc_free)
    have pre0: "pre0 \<noteq> []" using la(5) by simp
    show ?thesis
    proof (cases "post = [] \<or> snd (hd post)")
      case True
      from coalesce_case3[OF o[unfolded p, simplified False] True bp']
      obtain s' fl' where r: "coalesce s bp = (s', bp - zp)" "open_rel s' pre0 (z + zp) post fl'"
        "heap_listp s' = ?h" by blast
      have "naf (pre0 @ (z + zp, False) # post)" using n npre0 True pre0 by (simp add: naf_mid)
      moreover have "allocs ?h (pre0 @ (z + zp, False) # post) = allocs ?h (pre @ (z, False) # post)"
        by (simp add: p False algebra_simps)
      moreover have "bp - zp = ?h + extent pre0" using bp' by simp
      ultimately show ?thesis
        by (intro exI[of _ s'] exI[of _ pre0] exI[of _ "z + zp"] exI[of _ post] exI[of _ fl'])
           (use r la(4) in \<open>simp add: p False\<close>)
    next
      case F2: False
      then obtain zn post0 where q: "post = (zn, False) # post0" by (cases post) auto
      from coalesce_case4[OF o[unfolded p q, simplified False] bp']
      obtain s' fl' where r: "coalesce s bp = (s', bp - zp)"
        "open_rel s' pre0 (z + (zp + zn)) post0 fl'" "heap_listp s' = ?h" by blast
      have "naf (pre0 @ (z + (zp + zn), False) # post0)"
        using n npre0 q pre0 by (simp add: naf_mid naf_free_cons)
      moreover have "allocs ?h (pre0 @ (z + (zp + zn), False) # post0) = allocs ?h (pre @ (z, False) # post)"
        by (simp add: p q False algebra_simps)
      moreover have "bp - zp = ?h + extent pre0" using bp' by simp
      moreover have "0 \<le> zn" using chain_next(4)[OF c[unfolded q] pre bp] by simp
      ultimately show ?thesis
        by (intro exI[of _ s'] exI[of _ pre0] exI[of _ "z + (zp + zn)"] exI[of _ post0] exI[of _ fl'])
           (use r la(4) in \<open>simp add: p q False\<close>)
    qed
  qed
qed

lemma close_rel:
  assumes o: "open_rel s pre z post fl" and bp: "bp = heap_listp s + extent pre"
  shows "heap_rel (addToFreeList s bp) (pre @ (z, False) # post) (bp # fl)"
    and "heap_listp (addToFreeList s bp) = heap_listp s"
proof -
  let ?h = "heap_listp s"
  from o have c: "chain_ok s (pre @ (z, False) # post)" and pre: "pre \<noteq> []"
    and fl: "fl_ok s fl" "set fl = frees ?h pre \<union> frees (?h + extent pre + z) post"
    by (simp_all add: open_rel_def)
  note b = chain_block[OF c pre bp]
  note cp = chain_pre[OF c pre]
  have so: "sizes_ok pre" "sizes_ok post" using cp(3,4) by simp_all
  have nin: "bp \<notin> set fl"
    using frees_pre_lt[OF _ so(1), of bp ?h] frees_post_ge[OF _ so(2), of bp "bp + z"] b(3) fl(2) bp
    by auto
  from addToFreeList_spec[OF fl(1) nin b(5)] b(6,9) b(3)
  have f: "fl_ok (addToFreeList s bp) (bp # fl)" and t: "touches s (addToFreeList s bp) (bp # fl)"
    by simp_all
  show h: "heap_listp (addToFreeList s bp) = ?h" using t by (simp add: touches_def)
  have fr: "set (bp # fl) = frees ?h (pre @ (z, False) # post)"
    using fl(2) by (auto simp add: bp algebra_simps)
  have "chain_ok (addToFreeList s bp) (pre @ (z, False) # post)"
    by (rule chain_touches[OF c t]) (use fr in simp)
  with f fr show "heap_rel (addToFreeList s bp) (pre @ (z, False) # post) (bp # fl)"
    by (simp add: heap_rel_def h)
qed

section \<open>Freeing a block\<close>

lemma allocs_pre_lt: "(x, y) \<in> allocs a pre \<Longrightarrow> sizes_ok pre \<Longrightarrow> x + 8 \<le> a + extent pre"
  using allocs_bounds by fastforce

lemma allocs_post_ge: "(x, y) \<in> allocs a post \<Longrightarrow> sizes_ok post \<Longrightarrow> a \<le> x"
  using allocs_bounds by fastforce

lemma heap_relD:
  assumes "heap_rel s bs fl"
  shows "chain_ok s bs" "fl_ok s fl" "set fl = frees (heap_listp s) bs"
  using assms by (simp_all add: heap_rel_def)

lemma free_spec:
  assumes h: "heap_rel s (pre @ (z, True) # post) fl" and pre: "pre \<noteq> []"
    and n: "naf (pre @ (z, True) # post)" and bp: "bp = heap_listp s + extent pre"
  shows "\<exists>bs' fl'. heap_rel (free s bp) bs' fl' \<and> naf bs' \<and> heap_listp (free s bp) = heap_listp s
           \<and> allocs (heap_listp s) bs' = allocs (heap_listp s) (pre @ (z, True) # post) - {(bp, z)}"
proof -
  let ?h = "heap_listp s"
  note c = heap_relD(1)[OF h] and fl = heap_relD(2,3)[OF h]
  note b = chain_block[OF c pre bp]
  note cp = chain_pre[OF c pre]
  have so: "sizes_ok pre" "sizes_ok post" using cp(3,4) by simp_all
  define s4 where "s4 = PUT (PUT (PUT (PUT s (bp - 4) (tag z False)) (bp + z - 8) (tag z False)) bp 0) (bp + 4) 0"
  have r: "region s s4 (?h + extent pre - 4) (?h + extent pre + extent [(z, True)] - 4)"
    unfolding s4_def bp[symmetric] using b(3)
    by (intro region_PUT region_refl) simp_all
  have h4: "heap_listp s4 = ?h" by (simp add: s4_def)
  have sg: "seg s4 (?h + extent pre) [(z, False)]"
    unfolding bp[symmetric] s4_def using b(3,10)
    by (simp add: GET_PUT_tag GET_PUT_lt GET_PUT_gt)
  have c': "chain_ok s (pre @ [(z, True)] @ post)" using c by simp
  have c4: "chain_ok s4 (pre @ [(z, False)] @ post)"
    by (rule chain_retag[OF c' r sg _ _ pre]) (use b in simp_all)
  have f4: "fl_ok s4 fl"
    by (rule fl_retag[OF so r fl(1)]) (use fl(2) in \<open>simp add: algebra_simps\<close>)
  have o: "open_rel s4 pre z post fl"
    using c4 f4 fl(2) pre by (simp add: open_rel_def h4 algebra_simps)
  have bp4: "bp = heap_listp s4 + extent pre" using bp h4 by simp
  have np: "naf pre" "naf post" using n by (simp_all add: naf_mid)
  from coalesce_spec[OF o np bp4]
  obtain s' pre' z' post' fl' where co: "coalesce s4 bp = (s', ?h + extent pre')"
    and o': "open_rel s' pre' z' post' fl'" and h': "heap_listp s' = ?h"
    and n': "naf (pre' @ (z', False) # post')"
    and al: "allocs ?h (pre' @ (z', False) # post') = allocs ?h (pre @ (z, False) # post)"
    by (auto simp add: h4)
  have bp': "?h + extent pre' = heap_listp s' + extent pre'" using h' by simp
  note cl = close_rel[OF o' bp']
  have "bp \<noteq> 0" using b(6) chain_okD(1,3)[OF c] by simp
  then have fr: "free s bp = addToFreeList s' (?h + extent pre')"
    using b(11) b(4) b(3) b(10) co
    by (simp add: free_def Let_def macro_simps PACK_tag GET_SIZE_PUT_tag s4_def[symmetric])
  have "(bp, z) \<notin> allocs ?h pre" using allocs_pre_lt[OF _ so(1), of bp z ?h] bp by auto
  moreover have "(bp, z) \<notin> allocs (bp + z) post" using allocs_post_ge[OF _ so(2), of bp z "bp + z"] b(3) by auto
  ultimately have "allocs ?h (pre' @ (z', False) # post') = allocs ?h (pre @ (z, True) # post) - {(bp, z)}"
    using al by (auto simp add: bp algebra_simps)
  then show ?thesis
    using cl n' h' by (intro exI[of _ "pre' @ (z', False) # post'"] exI[of _ "(?h + extent pre') # fl'"])
      (simp add: fr)
qed

section \<open>Extending the heap\<close>

lemma seg_cong: "mem s' = mem s \<Longrightarrow> seg s' a bs = seg s a bs"
  by (induction bs arbitrary: a) (auto simp add: GET_def)

lemma fl_ok_cong:
  assumes "mem s' = mem s" "heap_listp s' = heap_listp s" "freelist s' = freelist s"
  shows "fl_ok s' fl = fl_ok s fl"
proof -
  have "dl s' 0 fl 0 = dl s 0 fl 0" by (rule dl_agree) (simp_all add: assms)
  then show ?thesis by (simp add: fl_ok_def nodes_ok_def assms nxt_cong[OF assms(2)])
qed

lemma GET_cong_mem: "mem s' = mem s \<Longrightarrow> GET s' p = GET s p"
  by (simp add: GET_def)

lemma extend_heap_spec:
  assumes h: "heap_rel s bs fl" and n: "naf bs"
    and e: "16 \<le> E" "E mod 8 = 0" "mem_brk s + E \<le> mem_max_addr s"
  shows "\<exists>s' pre z fl'. extend_heap s (E div WSIZE) = (s', heap_listp s + extent pre)
           \<and> heap_rel s' (pre @ [(z, False)]) fl' \<and> naf (pre @ [(z, False)]) \<and> pre \<noteq> []
           \<and> E \<le> z \<and> heap_listp s' = heap_listp s
           \<and> allocs (heap_listp s) (pre @ [(z, False)]) = allocs (heap_listp s) bs
           \<and> heap_listp s + extent pre \<in> set fl'"
proof -
  let ?h = "heap_listp s"
  let ?bp = "mem_brk s"
  note c = heap_relD(1)[OF h] and fl = heap_relD(2,3)[OF h]
  note d = chain_okD[OF c]
  note so = chain_sizes_ok[OF c]
  have E64: "0 \<le> E" "E < 18446744073709551616" "E < 4294967295"
    using e d(1,3,4,5,10) extent_ge0[OF so] by simp_all
  define s0 where "s0 = s\<lparr>sbrk_calls := sbrk_calls s + 1, mem_brk := mem_brk s + E\<rparr>"
  have sb: "mem_sbrk s E = (s0, ?bp)"
    using e E64 by (simp add: mem_sbrk_def s0_def Let_def)
  have m0: "mem s0 = mem s" "heap_listp s0 = ?h" "freelist s0 = freelist s" "mem_brk s0 = ?bp + E"
    "mem_start_brk s0 = mem_start_brk s" "mem_max_addr s0 = mem_max_addr s"
    by (simp_all add: s0_def)
  define s5 where "s5 = PUT (PUT (PUT (PUT (PUT s0 (?bp - 4) (tag E False)) (?bp + E - 8) (tag E False))
      (?bp + E - 4) (tag 0 True)) ?bp 0) (?bp + 4) 0"
  have r: "region s0 s5 (?bp - 4) (?bp + E)"
    unfolding s5_def using e
    by (intro region_PUT region_refl) simp_all
  have f5: "heap_listp s5 = ?h" "mem_brk s5 = ?bp + E" "mem_start_brk s5 = mem_start_brk s"
    "mem_max_addr s5 = mem_max_addr s"
    by (simp_all add: s5_def m0)
  have bpe: "?bp = ?h + extent bs" using d(10) by simp
  have sg: "seg s5 ?h bs"
    using seg_region[OF r so, of ?h] seg_cong[OF m0(1), of ?h bs] d(9) bpe by simp
  have sn: "seg s5 ?bp [(E, False)]"
    unfolding s5_def using e E64
    by (simp add: GET_PUT_tag GET_PUT_lt GET_PUT_gt)
  have ep: "GET s5 (?bp + E - 4) = 1"
    unfolding s5_def using e E64 GET_PUT_tag[of 0 _ _ True]
    by (simp add: GET_PUT_lt GET_PUT_gt tag_def)
  have hdtl: "hd (bs @ [(E, False)]) = (8, True)" "big (tl (bs @ [(E, False)]))"
    using d(6,7,8) e by (cases bs; simp)+
  have c5: "chain_ok s5 (bs @ [(E, False)])"
    by (rule chain_okI) (use d sg sn ep e bpe hdtl in \<open>simp_all add: f5\<close>)
  have f0: "fl_ok s0 fl" using fl_ok_cong[OF m0(1,2,3)] fl(1) by simp
  have fl5: "fl_ok s5 fl"
  proof (rule fl_ok_region[OF r f0])
    show "\<forall>a\<in>set fl. a + 8 \<le> ?bp - 4 \<or> ?bp + E \<le> a"
    proof
      fix a assume "a \<in> set fl"
      with fl(2) have "a \<in> frees ?h bs" by simp
      from frees_pre_lt[OF this so] bpe show "a + 8 \<le> ?bp - 4 \<or> ?bp + E \<le> a" by simp
    qed
  qed
  have o: "open_rel s5 bs E [] fl"
    using c5 fl5 fl(2) d(6) by (simp add: open_rel_def f5)
  have bp5: "?bp = heap_listp s5 + extent bs" using bpe f5 by simp
  from coalesce_spec[OF o n _ bp5]
  obtain s' pre' z' post' fl' where co: "coalesce s5 ?bp = (s', ?h + extent pre')"
    and o': "open_rel s' pre' z' post' fl'" and h': "heap_listp s' = ?h"
    and n': "naf (pre' @ (z', False) # post')"
    and al: "allocs ?h (pre' @ (z', False) # post') = allocs ?h (bs @ [(E, False)])"
    and z': "E \<le> z'" and p': "post' = []"
    by (auto simp add: f5)
  have bp': "?h + extent pre' = heap_listp s' + extent pre'" using h' by simp
  note cl = close_rel[OF o' bp']
  have "?bp \<noteq> -1" using d(1,3,10) extent_ge0[OF so] by simp
  then have ex: "extend_heap s (E div WSIZE) = (addToFreeList s' (?h + extent pre'), ?h + extent pre')"
    unfolding extend_heap_def extend_size[OF e(2) E64(1,2)] sb Let_def
    using e E64 co PACK_tag(1)[of 0]
    by (simp add: macro_simps PACK_tag GET_SIZE_PUT_tag GET_SIZE_PUT_lt s5_def[symmetric])
  have pn: "pre' \<noteq> []" using o' by (simp add: open_rel_def)
  show ?thesis
    by (intro exI[of _ "addToFreeList s' (?h + extent pre')"] exI[of _ pre'] exI[of _ z']
        exI[of _ "(?h + extent pre') # fl'"])
      (use ex cl n' z' p' al pn h' in simp)
qed

section \<open>Searching, placing, allocating\<close>

lemma find_fit_loop_spec:
  "dl s p as 0 \<Longrightarrow> nodes_ok s as \<Longrightarrow>
   find_fit_loop s (nxt s as 0) asize
     = Some (case filter (\<lambda>a. asize \<le> GET_SIZE s (a - 4)) as of [] \<Rightarrow> 0 | a # x \<Rightarrow> a)"
proof (induction as arbitrary: p)
  case Nil
  show ?case by (subst find_fit_loop.simps) simp
next
  case (Cons a as)
  from Cons.prems(2) have a: "heap_listp s < a" and n': "nodes_ok s as"
    by (auto simp add: nodes_ok_def)
  from Cons.prems(1) have g: "GET s (a + 4) = nxt s as 0" and d': "dl s (a - heap_listp s) as 0"
    by simp_all
  show ?case
  proof (cases "asize \<le> GET_SIZE s (a - 4)")
    case True
    then show ?thesis using a
      by (subst find_fit_loop.simps) (simp add: Let_def GET_ADDR_def macro_simps)
  next
    case False
    then show ?thesis using a g Cons.IH[OF d' n']
      by (subst find_fit_loop.simps) (simp add: Let_def GET_ADDR_def macro_simps)
  qed
qed

lemma filter_hd_in: "filter P as = a # x \<Longrightarrow> a \<in> set as \<and> P a"
proof -
  assume f: "filter P as = a # x"
  have "a \<in> set (filter P as)" by (simp add: f)
  then show ?thesis by simp
qed

lemma find_fit_spec:
  assumes "fl_ok s fl"
  shows "\<exists>r. find_fit s asize = Some r \<and> (r = 0 \<or> (r \<in> set fl \<and> asize \<le> GET_SIZE s (r - 4)))"
proof -
  from assms have fr: "freelist s = nxt s fl 0" and d: "dl s 0 fl 0" and n: "nodes_ok s fl"
    by (simp_all add: fl_ok_def)
  show ?thesis
    unfolding find_fit_def fr find_fit_loop_spec[OF d n]
    by (auto split: list.splits dest: filter_hd_in)
qed

lemma frees_split:
  "x \<in> frees a bs \<Longrightarrow> \<exists>pre z post. bs = pre @ (z, False) # post \<and> x = a + extent pre"
proof (induction a bs rule: frees.induct)
  case (1 a) then show ?case by simp
next
  case (2 a z al bs)
  show ?case
  proof (cases "x = a \<and> \<not> al")
    case True
    then show ?thesis by (intro exI[of _ "[]"] exI[of _ z] exI[of _ bs]) simp
  next
    case False
    with "2.prems" have "x \<in> frees (a + z) bs" by (auto split: if_splits)
    from "2.IH"[OF this] obtain pre z' post where "bs = pre @ (z', False) # post" "x = a + z + extent pre"
      by blast
    then show ?thesis by (intro exI[of _ "(z, al) # pre"] exI[of _ z'] exI[of _ post]) simp
  qed
qed

lemma allocs_split:
  "(x, z) \<in> allocs a bs \<Longrightarrow> \<exists>pre post. bs = pre @ (z, True) # post \<and> x = a + extent pre"
proof (induction a bs rule: allocs.induct)
  case (1 a) then show ?case by simp
next
  case (2 a z' al bs)
  show ?case
  proof (cases "x = a \<and> z = z' \<and> al")
    case True
    then show ?thesis by (intro exI[of _ "[]"] exI[of _ bs]) simp
  next
    case False
    with "2.prems" have "(x, z) \<in> allocs (a + z') bs" by (auto split: if_splits)
    from "2.IH"[OF this] obtain pre post where "bs = pre @ (z, True) # post" "x = a + z' + extent pre"
      by blast
    then show ?thesis by (intro exI[of _ "(z', al) # pre"] exI[of _ post]) simp
  qed
qed

lemma adjust_facts:
  assumes "0 < n" "n + 15 < 18446744073709551616"
  shows "16 \<le> adjust n" "adjust n mod 8 = 0" "n + 8 \<le> adjust n"
  using assms by (auto simp add: adjust_def ALIGN_eq DSIZE_def)

lemma heap_rel_sbrk_calls: "heap_rel (s\<lparr>sbrk_calls := k\<rparr>) bs fl = heap_rel s bs fl"
proof -
  have "fl_ok (s\<lparr>sbrk_calls := k\<rparr>) fl = fl_ok s fl" by (rule fl_ok_cong) simp_all
  moreover have "seg (s\<lparr>sbrk_calls := k\<rparr>) (heap_listp s) bs = seg s (heap_listp s) bs"
    by (rule seg_cong) simp
  moreover have "GET (s\<lparr>sbrk_calls := k\<rparr>) (mem_brk s - 4) = GET s (mem_brk s - 4)"
    by (rule GET_cong_mem) simp
  ultimately show ?thesis by (simp add: heap_rel_def chain_ok_def)
qed

lemma place_heap:
  assumes h: "heap_rel s (pre @ (c, False) # post) fl" and pre: "pre \<noteq> []"
    and n: "naf (pre @ (c, False) # post)"
    and bp: "bp = heap_listp s + extent pre"
    and a: "16 \<le> asize" "asize mod 8 = 0" "asize \<le> c"
  shows "\<exists>bs' fl' z. heap_rel (place s bp asize) bs' fl' \<and> naf bs' \<and> asize \<le> z
           \<and> heap_listp (place s bp asize) = heap_listp s
           \<and> (bp, z) \<notin> allocs (heap_listp s) (pre @ (c, False) # post)
           \<and> allocs (heap_listp s) bs' = insert (bp, z) (allocs (heap_listp s) (pre @ (c, False) # post))"
proof -
  let ?h = "heap_listp s"
  let ?mid = "if 16 \<le> c - asize then [(asize, True), (c - asize, False)] else [(c, True)]"
  let ?z = "if 16 \<le> c - asize then asize else c"
  note c = heap_relD(1)[OF h] and fl = heap_relD(2,3)[OF h]
  note b = chain_block[OF c pre bp]
  note cp = chain_pre[OF c pre]
  have so: "sizes_ok pre" "sizes_ok post" using cp(3,4) by simp_all
  from place_spec[OF c pre fl bp a] obtain fl' where
    hr: "heap_rel (place s bp asize) (pre @ ?mid @ post) fl'"
    and hl: "heap_listp (place s bp asize) = ?h" by blast
  have nn: "naf (pre @ ?mid @ post)" using n pre by (auto simp add: naf_mid naf_append naf_alloc_cons naf_free_cons)
  have n1: "(bp, ?z) \<notin> allocs ?h pre" using allocs_pre_lt[OF _ so(1), of bp ?z ?h] bp by auto
  have n2: "(bp, ?z) \<notin> allocs (bp + c) post" using allocs_post_ge[OF _ so(2), of bp ?z "bp + c"] b(3) by auto
  have al: "allocs ?h (pre @ ?mid @ post) = insert (bp, ?z) (allocs ?h (pre @ (c, False) # post))"
    by (auto simp add: bp algebra_simps)
  show ?thesis
    by (intro exI[of _ "pre @ ?mid @ post"] exI[of _ fl'] exI[of _ ?z])
      (use hr nn n1 n2 al a hl in \<open>auto simp add: bp algebra_simps\<close>)
qed

lemma chain_first_alloc:
  assumes "chain_ok s (pre @ (c, False) # post)"
  shows "pre \<noteq> []"
  using chain_okD(7)[OF assms] by (cases pre) auto

lemma malloc_extend:
  assumes h: "heap_rel s bs fl" and n: "naf bs" and sz: "n \<noteq> 0"
    and ff: "find_fit s (adjust n) = Some 0"
    and cap: "mem_brk s + max (adjust n) CHUNKSIZE \<le> mem_max_addr s"
  shows "\<exists>s1 pre z fl1. extend_heap s (max (adjust n) CHUNKSIZE div WSIZE) = (s1, heap_listp s + extent pre)
           \<and> heap_listp s + extent pre \<noteq> 0
           \<and> adjust n \<le> z \<and> GET_SIZE s1 (HDRP (heap_listp s + extent pre)) = z
           \<and> malloc s n = Some (place s1 (heap_listp s + extent pre) (adjust n), heap_listp s + extent pre)
           \<and> heap_rel s1 (pre @ [(z, False)]) fl1 \<and> naf (pre @ [(z, False)]) \<and> pre \<noteq> []
           \<and> heap_listp s1 = heap_listp s
           \<and> allocs (heap_listp s) (pre @ [(z, False)]) = allocs (heap_listp s) bs"
proof -
  let ?h = "heap_listp s"
  let ?E = "max (adjust n) CHUNKSIZE"
  have E: "16 \<le> ?E" "?E mod 8 = 0" using adjust_bounds[of n] by (auto simp add: CHUNKSIZE_def max_def)
  from extend_heap_spec[OF h n E cap]
  obtain s1 pre z fl1 where ex: "extend_heap s (?E div WSIZE) = (s1, ?h + extent pre)"
    and h1: "heap_rel s1 (pre @ [(z, False)]) fl1" and n1: "naf (pre @ [(z, False)])"
    and pre: "pre \<noteq> []" and z: "?E \<le> z" and hl: "heap_listp s1 = ?h"
    and al: "allocs ?h (pre @ [(z, False)]) = allocs ?h bs" by blast
  have bp1: "?h + extent pre = heap_listp s1 + extent pre" using hl by simp
  note b = chain_block[OF heap_relD(1)[OF h1] pre bp1]
  have nz: "?h + extent pre \<noteq> 0" using b(6) chain_okD(1,3)[OF heap_relD(1)[OF h1]] hl by simp
  have m: "malloc s n = Some (place s1 (?h + extent pre) (adjust n), ?h + extent pre)"
    using sz ff ex nz by (simp add: malloc_def Let_def)
  show ?thesis
    by (intro exI[of _ s1] exI[of _ pre] exI[of _ z] exI[of _ fl1])
      (use ex nz z b(11) m h1 n1 pre hl al in \<open>simp add: HDRP_def WSIZE_def\<close>)
qed

lemma malloc_spec:
  assumes h: "heap_rel s bs fl" and n: "naf bs" and sz: "0 < n" "n + 15 < 18446744073709551616"
  shows "\<exists>s' p bs' fl'. malloc s n = Some (s', p) \<and> heap_rel s' bs' fl' \<and> naf bs'
           \<and> heap_listp s' = heap_listp s
           \<and> (if p = 0 then allocs (heap_listp s) bs' = allocs (heap_listp s) bs
               else \<exists>z. adjust n \<le> z \<and> (p, z) \<notin> allocs (heap_listp s) bs
                      \<and> allocs (heap_listp s) bs' = insert (p, z) (allocs (heap_listp s) bs))"
proof -
  let ?h = "heap_listp s"
  let ?a = "adjust n"
  note c = heap_relD(1)[OF h] and fl = heap_relD(2,3)[OF h]
  note a = adjust_facts[OF sz]
  from find_fit_spec[OF fl(1), of ?a] obtain r where
    ff: "find_fit s ?a = Some r" and r: "r = 0 \<or> (r \<in> set fl \<and> ?a \<le> GET_SIZE s (r - 4))" by blast
  show ?thesis
  proof (cases "r = 0")
    case False
    with r fl(2) have rf: "r \<in> frees ?h bs" and rs: "?a \<le> GET_SIZE s (r - 4)" by auto
    from frees_split[OF rf] obtain pre c post where bs: "bs = pre @ (c, False) # post"
      and rp: "r = ?h + extent pre" by blast
    have pre: "pre \<noteq> []" using chain_first_alloc[OF heap_relD(1)[OF h[unfolded bs]]] .
    note b = chain_block[OF heap_relD(1)[OF h[unfolded bs]] pre rp]
    from rs b(11) have ac: "?a \<le> c" by simp
    from place_heap[OF h[unfolded bs] pre n[unfolded bs] rp a(1,2) ac]
    obtain bs' fl' z where p: "heap_rel (place s r ?a) bs' fl'" "naf bs'" "?a \<le> z"
      "heap_listp (place s r ?a) = ?h" "(r, z) \<notin> allocs ?h bs"
      "allocs ?h bs' = insert (r, z) (allocs ?h bs)" unfolding bs by blast
    have m: "malloc s n = Some (place s r ?a, r)"
      using sz ff False by (simp add: malloc_def Let_def)
    show ?thesis
      by (intro exI[of _ "place s r ?a"] exI[of _ r] exI[of _ bs'] exI[of _ fl'])
        (use m p False in auto)
  next
    case True
    note ff0 = ff[unfolded True]
    have n0: "n \<noteq> 0" using sz by simp
    show ?thesis
    proof (cases "mem_max_addr s < mem_brk s + max ?a CHUNKSIZE")
      case True
      from malloc_oom[OF n0 ff0 True]
      show ?thesis
        by (intro exI[of _ "s\<lparr>sbrk_calls := sbrk_calls s + 1\<rparr>"] exI[of _ 0] exI[of _ bs] exI[of _ fl])
          (use h n in \<open>simp add: heap_rel_sbrk_calls\<close>)
    next
      case False
      then have cap: "mem_brk s + max ?a CHUNKSIZE \<le> mem_max_addr s" by simp
      from malloc_extend[OF h n n0 ff0 cap]
      obtain s1 pre z fl1 where z: "?a \<le> z"
        and nz: "?h + extent pre \<noteq> 0"
        and m: "malloc s n = Some (place s1 (?h + extent pre) ?a, ?h + extent pre)"
        and h1: "heap_rel s1 (pre @ [(z, False)]) fl1" and n1: "naf (pre @ [(z, False)])"
        and pre: "pre \<noteq> []" and hl: "heap_listp s1 = ?h"
        and al: "allocs ?h (pre @ [(z, False)]) = allocs ?h bs" by blast
      have bp1: "?h + extent pre = heap_listp s1 + extent pre" using hl by simp
      from place_heap[OF h1 pre n1 bp1 a(1,2) z]
      obtain bs' fl' z' where p: "heap_rel (place s1 (?h + extent pre) ?a) bs' fl'" "naf bs'" "?a \<le> z'"
        "heap_listp (place s1 (?h + extent pre) ?a) = ?h" "(?h + extent pre, z') \<notin> allocs ?h bs"
        "allocs ?h bs' = insert (?h + extent pre, z') (allocs ?h bs)"
        unfolding hl al by blast
      show ?thesis
        by (intro exI[of _ "place s1 (?h + extent pre) ?a"] exI[of _ "?h + extent pre"] exI[of _ bs']
            exI[of _ fl'])
          (use m p nz in auto)
    qed
  qed
qed

section \<open>Resizing and zero-initialised allocation under the invariant\<close>

lemma payload_write:
  assumes h: "heap_rel s (pre @ (z, True) # post) fl" and pre: "pre \<noteq> []"
    and p: "p = heap_listp s + extent pre"
    and r: "region s s' lo hi" and b: "p \<le> lo" "hi \<le> p + z - 8"
  shows "heap_rel s' (pre @ (z, True) # post) fl"
proof -
  let ?h = "heap_listp s"
  note c = heap_relD(1)[OF h] and fl = heap_relD(2,3)[OF h]
  note bl = chain_block[OF c pre p]
  note cp = chain_pre[OF c pre]
  have so: "sizes_ok pre" "sizes_ok post" using cp(3,4) by simp_all
  have r': "region s s' (?h + extent pre - 4) (?h + extent pre + extent [(z, True)] - 4)"
    by (rule region_mono[OF r]) (use b p in simp_all)
  have h': "heap_listp s' = ?h" using r by (simp add: region_def)
  have g1: "GET s' (p - 4) = GET s (p - 4)" by (rule GET_region[OF r]) (use b in simp)
  have g2: "GET s' (p + z - 8) = GET s (p + z - 8)" by (rule GET_region[OF r]) (use b in simp)
  have sg: "seg s' (?h + extent pre) [(z, True)]"
    using bl(1,2) g1 g2 by (simp add: p)
  have c': "chain_ok s (pre @ [(z, True)] @ post)" using c by simp
  have c2: "chain_ok s' (pre @ [(z, True)] @ post)"
    by (rule chain_retag[OF c' r' sg _ _ pre]) (use bl in simp_all)
  have f2: "fl_ok s' fl"
    by (rule fl_retag[OF so r' fl(1)]) (use fl(2) in \<open>simp add: algebra_simps\<close>)
  show ?thesis using c2 f2 fl(2) by (simp add: heap_rel_def h')
qed

lemma region_memcpy: "region s (memcpy s dst src n) dst (dst + n)"
  by (simp add: region_def memcpy_def)

lemma region_memset: "memset s p c n = Some s' \<Longrightarrow> region s s' p (p + n)"
  by (auto simp add: region_def memset_def split: if_splits)

lemma ALIGN_facts:
  assumes "0 < n" "n + 15 < 18446744073709551616"
  shows "16 \<le> ALIGN n" "ALIGN n mod 8 = 0" "n + 8 \<le> ALIGN n" "ALIGN n \<le> n + 15"
  using assms by (auto simp add: ALIGN_eq)

lemma ALIGN_twice:
  assumes "0 < n" "n + 23 < 18446744073709551616"
  shows "ALIGN n + 15 < 18446744073709551616" "adjust (ALIGN n) = ALIGN n + 8"
proof -
  have a: "ALIGN n = 8 * ((n + 15) div 8)" using assms by (simp add: ALIGN_eq)
  have "(n + 15) div 8 \<le> 2305843009213693950" using assms by simp
  then show l: "ALIGN n + 15 < 18446744073709551616" unfolding a by simp
  have "8 < ALIGN n" using assms unfolding a by simp
  moreover have "ALIGN (ALIGN n) = ALIGN n + 8"
    using l assms unfolding ALIGN_eq[of "ALIGN n"] unfolding a by simp
  ultimately show "adjust (ALIGN n) = ALIGN n + 8" by (simp add: adjust_def DSIZE_def)
qed

lemma allocs_unique:
  "(p, z) \<in> allocs a bs \<Longrightarrow> (p, z') \<in> allocs a bs \<Longrightarrow> sizes_ok bs \<Longrightarrow> z = z'"
  using blocks_disjoint[of p z True a bs p z' True] blocks_sizes[of p z True a bs]
    blocks_sizes[of p z' True a bs]
  by (auto simp add: allocs_blocks)

lemma realloc_shrink:
  assumes h: "heap_rel s (pre @ (z, True) # post) fl" and pre: "pre \<noteq> []"
    and n: "naf (pre @ (z, True) # post)" and ptr: "ptr = heap_listp s + extent pre"
    and sz: "0 < m" "m + 15 < 18446744073709551616"
    and a: "ALIGN m \<le> z" "16 \<le> z - ALIGN m"
  shows "\<exists>s' bs' fl'. realloc s ptr m = Some (s', ptr) \<and> heap_rel s' bs' fl' \<and> naf bs'
           \<and> heap_listp s' = heap_listp s
           \<and> allocs (heap_listp s) bs'
               = insert (ptr, ALIGN m) (allocs (heap_listp s) (pre @ (z, True) # post) - {(ptr, z)})"
proof -
  let ?h = "heap_listp s"
  let ?a = "ALIGN m"
  note c = heap_relD(1)[OF h] and fl = heap_relD(2,3)[OF h]
  note b = chain_block[OF c pre ptr]
  note cp = chain_pre[OF c pre]
  note af = ALIGN_facts[OF sz]
  have so: "sizes_ok pre" "sizes_ok post" using cp(3,4) by simp_all
  have za: "(z - ?a) mod 8 = 0" "0 \<le> z - ?a" "z - ?a < 4294967295" "?a < 4294967295" "0 \<le> ?a"
    using b(4,10) af a by (simp_all add: mod8_diff)
  define s6 where "s6 = PUT (PUT (PUT (PUT (PUT (PUT s (ptr - 4) (tag ?a True)) (ptr + ?a - 8) (tag ?a True))
      (ptr + ?a - 4) (tag (z - ?a) False)) (ptr + z - 8) (tag (z - ?a) False)) (ptr + ?a) 0) (ptr + ?a + 4) 0"
  have r: "region s s6 (?h + extent pre - 4) (?h + extent pre + extent [(z, True)] - 4)"
    unfolding s6_def ptr[symmetric] using af a
    by (intro region_PUT region_refl) simp_all
  have h6: "heap_listp s6 = ?h" by (simp add: s6_def)
  have sg: "seg s6 (?h + extent pre) [(?a, True), (z - ?a, False)]"
    unfolding ptr[symmetric] s6_def using af a za
    by (simp add: GET_PUT_tag GET_PUT_lt GET_PUT_gt)
  have c': "chain_ok s (pre @ [(z, True)] @ post)" using c by simp
  have c6: "chain_ok s6 (pre @ [(?a, True), (z - ?a, False)] @ post)"
    by (rule chain_retag[OF c' r sg _ _ pre]) (use af a za in simp_all)
  have f6: "fl_ok s6 fl"
    by (rule fl_retag[OF so r fl(1)]) (use fl(2) in \<open>simp add: algebra_simps\<close>)
  have o: "open_rel s6 (pre @ [(?a, True)]) (z - ?a) post fl"
    using c6 f6 fl(2) by (simp add: open_rel_def h6 algebra_simps)
  have np: "naf (pre @ [(?a, True)])" "naf post" using n by (simp_all add: naf_mid naf_append naf_alloc_cons)
  have bp6: "ptr + ?a = heap_listp s6 + extent (pre @ [(?a, True)])" using ptr h6 by simp
  from coalesce_spec[OF o np bp6, unfolded h6]
  obtain s' pre' z' post' fl' where co: "coalesce s6 (ptr + ?a) = (s', ?h + extent pre')"
    and o': "open_rel s' pre' z' post' fl'" and h': "heap_listp s' = ?h"
    and n': "naf (pre' @ (z', False) # post')"
    and al: "allocs ?h (pre' @ (z', False) # post') = allocs ?h ((pre @ [(?a, True)]) @ (z - ?a, False) # post)"
    and pp0: "snd (last (pre @ [(?a, True)])) \<longrightarrow> pre' = pre @ [(?a, True)]"
    by blast
  from pp0 have pp: "pre' = pre @ [(?a, True)]" by simp
  have bp': "?h + extent pre' = heap_listp s' + extent pre'" using h' by simp
  note cl = close_rel[OF o' bp']
  have e: "?h + extent pre' = ptr + ?a" using pp ptr by simp
  have nz: "ptr \<noteq> 0" using b(6) chain_okD(1,3)[OF c] by simp
  have re: "realloc s ptr m = Some (addToFreeList s' (ptr + ?a), ptr)"
    using nz sz a af za b(11) b(4) co[unfolded e]
    by (simp add: realloc_def Let_def macro_simps PACK_tag GET_SIZE_PUT_tag GET_SIZE_PUT_lt
        GET_SIZE_PUT_gt s6_def[symmetric])
  have n1: "(ptr, z) \<notin> allocs ?h pre" using allocs_pre_lt[OF _ so(1), of ptr z ?h] ptr by auto
  have n2: "(ptr, z) \<notin> allocs (ptr + z) post" using allocs_post_ge[OF _ so(2), of ptr z "ptr + z"] b(3) by auto
  have al': "allocs ?h (pre' @ (z', False) # post')
      = insert (ptr, ?a) (allocs ?h (pre @ (z, True) # post) - {(ptr, z)})"
    unfolding al using n1 n2 by (auto simp add: ptr algebra_simps)
  show ?thesis
    by (intro exI[of _ "addToFreeList s' (ptr + ?a)"] exI[of _ "pre' @ (z', False) # post'"]
        exI[of _ "(?h + extent pre') # fl'"])
      (use re cl[unfolded e] n' al' h' e in simp)
qed

lemma realloc_spec:
  assumes h: "heap_rel s (pre @ (z, True) # post) fl" and pre: "pre \<noteq> []"
    and n: "naf (pre @ (z, True) # post)" and ptr: "ptr = heap_listp s + extent pre"
    and sz: "0 < m" "m + 23 < 18446744073709551616"
  shows "\<exists>s' q bs' fl'. realloc s ptr m = Some (s', q) \<and> heap_rel s' bs' fl' \<and> naf bs'
           \<and> heap_listp s' = heap_listp s
           \<and> (if q = 0 then allocs (heap_listp s) bs' = allocs (heap_listp s) (pre @ (z, True) # post)
               else \<exists>z'. allocs (heap_listp s) bs'
                            = insert (q, z') (allocs (heap_listp s) (pre @ (z, True) # post) - {(ptr, z)})
                      \<and> (z < ALIGN m \<longrightarrow> ALIGN m + 8 \<le> z')
                      \<and> (ALIGN m \<le> z \<longrightarrow> q = ptr))"
proof -
  let ?h = "heap_listp s"
  let ?a = "ALIGN m"
  let ?bs = "pre @ (z, True) # post"
  note c = heap_relD(1)[OF h] and fl = heap_relD(2,3)[OF h]
  note b = chain_block[OF c pre ptr]
  note cp = chain_pre[OF c pre]
  have sz': "m + 15 < 18446744073709551616" using sz by simp
  note af = ALIGN_facts[OF sz(1) sz']
  note at = ALIGN_twice[OF sz]
  have nz: "ptr \<noteq> 0" using b(6) chain_okD(1,3)[OF c] by simp
  have m0: "m \<noteq> 0" using sz by simp
  have pin: "(ptr, z) \<in> allocs ?h ?bs" by (simp add: ptr)
  show ?thesis
  proof (cases "?a \<le> z")
    case True
    show ?thesis
    proof (cases "z - ?a < 16")
      case T2: True
      have re: "realloc s ptr m = Some (s, ptr)"
        using nz m0 True T2 b(11) by (simp add: realloc_def Let_def macro_simps)
      have "allocs ?h ?bs = insert (ptr, z) (allocs ?h ?bs - {(ptr, z)})" using pin by auto
      then show ?thesis
        by (intro exI[of _ s] exI[of _ ptr] exI[of _ ?bs] exI[of _ fl])
          (use re h n nz True in auto)
    next
      case False
      then have "16 \<le> z - ?a" by simp
      from realloc_shrink[OF h pre n ptr sz(1) sz' True this]
      obtain s' bs' fl' where r: "realloc s ptr m = Some (s', ptr)" "heap_rel s' bs' fl'" "naf bs'"
        "heap_listp s' = ?h" "allocs ?h bs' = insert (ptr, ?a) (allocs ?h ?bs - {(ptr, z)})" by blast
      show ?thesis
        by (intro exI[of _ s'] exI[of _ ptr] exI[of _ bs'] exI[of _ fl'])
          (use r nz True in auto)
    qed
  next
    case False
    then have lt: "z < ?a" by simp
    have a0: "0 < ?a" using af by simp
    from malloc_spec[OF h n a0 at(1)]
    obtain s1 q bs1 fl1 where ma: "malloc s ?a = Some (s1, q)" and h1: "heap_rel s1 bs1 fl1"
      and n1: "naf bs1" and hl1: "heap_listp s1 = ?h"
      and al1: "if q = 0 then allocs ?h bs1 = allocs ?h ?bs
                else \<exists>z'. adjust ?a \<le> z' \<and> (q, z') \<notin> allocs ?h ?bs
                       \<and> allocs ?h bs1 = insert (q, z') (allocs ?h ?bs)" by blast
    show ?thesis
    proof (cases "q = 0")
      case True
      have re: "realloc s ptr m = Some (s1, 0)"
        using nz m0 lt b(11) ma True by (simp add: realloc_def Let_def macro_simps)
      show ?thesis
        by (intro exI[of _ s1] exI[of _ 0] exI[of _ bs1] exI[of _ fl1])
          (use re h1 n1 hl1 al1 True in auto)
    next
      case F2: False
      with al1 obtain zq where zq: "adjust ?a \<le> zq" "(q, zq) \<notin> allocs ?h ?bs"
        "allocs ?h bs1 = insert (q, zq) (allocs ?h ?bs)" by auto
      have zq8: "?a + 8 \<le> zq" using zq(1) at(2) by simp
      have z8: "z + 8 \<le> ?a" using lt b(4) af(2) by presburger
      have "(q, zq) \<in> allocs (heap_listp s1) bs1" using zq(3) hl1 by simp
      from allocs_split[OF this] obtain preq postq where bq: "bs1 = preq @ (zq, True) # postq"
        and qe: "q = heap_listp s1 + extent preq" by blast
      have preq: "preq \<noteq> []"
      proof
        assume "preq = []"
        with chain_okD(7)[OF heap_relD(1)[OF h1]] bq have "zq = 8" by simp
        with zq8 af show False by simp
      qed
      define s2 where "s2 = memcpy s1 q ptr z"
      have h2: "heap_rel s2 bs1 fl1"
        unfolding bq s2_def
        by (rule payload_write[OF h1[unfolded bq] preq qe region_memcpy]) (use zq8 z8 in simp_all)
      have hl2: "heap_listp s2 = ?h" by (simp add: s2_def memcpy_def hl1)
      have "(ptr, z) \<in> allocs (heap_listp s2) bs1" using zq(3) pin hl2 by simp
      from allocs_split[OF this] obtain pre1 post1 where b1: "bs1 = pre1 @ (z, True) # post1"
        and pe: "ptr = heap_listp s2 + extent pre1" by blast
      have pre1: "pre1 \<noteq> []" using pe hl2 ptr cp(1) by auto
      from free_spec[OF h2[unfolded b1] pre1 n1[unfolded b1] pe]
      obtain bs' fl' where f: "heap_rel (free s2 ptr) bs' fl'" "naf bs'"
        "heap_listp (free s2 ptr) = ?h"
        "allocs ?h bs' = allocs ?h bs1 - {(ptr, z)}"
        unfolding hl2 b1[symmetric] by blast
      have re: "realloc s ptr m = Some (free s2 ptr, q)"
        using nz m0 lt b(11) ma F2 by (simp add: realloc_def Let_def macro_simps s2_def)
      have ne: "(q, zq) \<noteq> (ptr, z)" using zq(2) pin by auto
      have al: "allocs ?h bs' = insert (q, zq) (allocs ?h ?bs - {(ptr, z)})"
        unfolding f(4) zq(3) using ne by auto
      show ?thesis
        by (intro exI[of _ "free s2 ptr"] exI[of _ q] exI[of _ bs'] exI[of _ fl'])
          (use re f al F2 zq8 lt in auto)
    qed
  qed
qed

lemma calloc_spec:
  assumes h: "heap_rel s bs fl" and n: "naf bs" and sz: "u64 (k * m) + 15 < 18446744073709551616"
  shows "\<exists>s' p bs' fl'. calloc s k m = Some (s', p) \<and> heap_rel s' bs' fl' \<and> naf bs'
           \<and> heap_listp s' = heap_listp s
           \<and> (if p = 0 then allocs (heap_listp s) bs' = allocs (heap_listp s) bs
               else \<exists>z. u64 (k * m) + 8 \<le> z \<and> (p, z) \<notin> allocs (heap_listp s) bs
                      \<and> allocs (heap_listp s) bs' = insert (p, z) (allocs (heap_listp s) bs))"
proof -
  let ?h = "heap_listp s"
  let ?b = "u64 (k * m)"
  have b0: "0 \<le> ?b" by (simp add: u64_def)
  show ?thesis
  proof (cases "?b = 0")
    case True
    then have "calloc s k m = Some (s, 0)" by (simp add: calloc_def malloc_def Let_def)
    then show ?thesis
      by (intro exI[of _ s] exI[of _ 0] exI[of _ bs] exI[of _ fl]) (use h n in simp)
  next
    case False
    with b0 have bp: "0 < ?b" by simp
    note a = adjust_facts[OF bp sz]
    from malloc_spec[OF h n bp sz]
    obtain s1 p bs1 fl1 where ma: "malloc s ?b = Some (s1, p)" and h1: "heap_rel s1 bs1 fl1"
      and n1: "naf bs1" and hl1: "heap_listp s1 = ?h"
      and al1: "if p = 0 then allocs ?h bs1 = allocs ?h bs
                else \<exists>z'. adjust ?b \<le> z' \<and> (p, z') \<notin> allocs ?h bs
                       \<and> allocs ?h bs1 = insert (p, z') (allocs ?h bs)" by blast
    show ?thesis
    proof (cases "p = 0")
      case True
      have "calloc s k m = Some (s1, 0)" using ma True by (simp add: calloc_def Let_def)
      then show ?thesis
        by (intro exI[of _ s1] exI[of _ 0] exI[of _ bs1] exI[of _ fl1])
          (use h1 n1 hl1 al1 True in auto)
    next
      case F2: False
      with al1 obtain zq where zq: "adjust ?b \<le> zq" "(p, zq) \<notin> allocs ?h bs"
        "allocs ?h bs1 = insert (p, zq) (allocs ?h bs)" by auto
      have "(p, zq) \<in> allocs (heap_listp s1) bs1" using zq(3) hl1 by simp
      from allocs_split[OF this] obtain preq postq where bq: "bs1 = preq @ (zq, True) # postq"
        and qe: "p = heap_listp s1 + extent preq" by blast
      have preq: "preq \<noteq> []"
      proof
        assume "preq = []"
        with chain_okD(7)[OF heap_relD(1)[OF h1]] bq have "zq = 8" by simp
        with zq(1) a show False by simp
      qed
      note cb = chain_block[OF heap_relD(1)[OF h1, unfolded bq] preq qe]
      have lo: "mem_start_brk s1 \<le> p"
        using cb(6) chain_okD(3)[OF heap_relD(1)[OF h1]] by simp
      have hi: "p + ?b \<le> mem_brk s1" using cb(7,8) zq(1) a by simp
      from memset_heap[OF lo hi] obtain s2 where ms: "memset s1 p 0 ?b = Some s2" by blast
      have h2: "heap_rel s2 bs1 fl1"
        unfolding bq
        by (rule payload_write[OF h1[unfolded bq] preq qe region_memset[OF ms]])
          (use zq(1) a in simp_all)
      have hl2: "heap_listp s2 = ?h" using region_memset[OF ms] hl1 by (simp add: region_def)
      have ca: "calloc s k m = Some (s2, p)" using ma F2 ms by (simp add: calloc_def Let_def)
      have ez: "\<exists>z. ?b + 8 \<le> z \<and> (p, z) \<notin> allocs ?h bs
                  \<and> allocs ?h bs1 = insert (p, z) (allocs ?h bs)"
        by (rule exI[of _ zq]) (use zq a in simp)
      show ?thesis
        by (intro exI[of _ s2] exI[of _ p] exI[of _ bs1] exI[of _ fl1])
          (use ca h2 n1 hl2 ez F2 in simp)
    qed
  qed
qed

section \<open>Initialisation\<close>

lemma GET_upds [simp]:
  "GET (s\<lparr>heap_listp := h\<rparr>) p = GET s p"
  "GET (s\<lparr>mem_brk := k\<rparr>) p = GET s p"
  "GET (s\<lparr>sbrk_calls := c\<rparr>) p = GET s p"
  by (simp_all add: GET_def)

lemma PUT_upds [simp]:
  "PUT (s\<lparr>heap_listp := h\<rparr>) p v = (PUT s p v)\<lparr>heap_listp := h\<rparr>"
  by (simp add: PUT_def)

lemma init_spec:
  assumes ok: "provider_ok s0" and i: "mm_init s0 = (s, 0)"
  shows "\<exists>bs fl. heap_rel s bs fl \<and> naf bs \<and> allocs (heap_listp s) bs = {(heap_listp s, 8)}"
proof -
  let ?b = "mem_start_brk s0"
  from ok have o: "0 \<le> ?b" "?b mod 8 = 0" "mem_brk s0 = ?b" "mem_max_addr s0 - ?b < 4294967296"
    by (simp_all add: provider_ok_def)
  define sA where "sA = (PUT (PUT (PUT (PUT (s0\<lparr>sbrk_calls := sbrk_calls s0 + 1, mem_brk := ?b + 16\<rparr>)
      ?b 0) (?b + 4) (tag 8 True)) (?b + 8) (tag 8 True)) (?b + 12) (tag 0 True))
      \<lparr>heap_listp := ?b + 8, freelist := 0\<rparr>"
  have cap: "?b + 16 \<le> mem_max_addr s0"
  proof (rule ccontr)
    assume "\<not> ?b + 16 \<le> mem_max_addr s0"
    then have "snd (mm_init s0) = -1" using o by (simp add: mm_init_def mem_sbrk_def Let_def DSIZE_def)
    with i show False by simp
  qed
  have mi: "mm_init s0 = (case extend_heap sA (CHUNKSIZE div WSIZE) of (s, bp) \<Rightarrow>
              if bp = 0 then (s, -1) else (s, 0))"
    using o cap PACK_tag(1)[of 8] PACK_tag(1)[of 0]
    by (simp add: mm_init_def mem_sbrk_def Let_def DSIZE_def WSIZE_def sA_def)
  have fA: "heap_listp sA = ?b + 8" "mem_brk sA = ?b + 16" "mem_start_brk sA = ?b"
    "mem_max_addr sA = mem_max_addr s0" "freelist sA = 0"
    by (simp_all add: sA_def)
  have gA: "GET sA (?b + 4) = tag 8 True" "GET sA (?b + 8) = tag 8 True" "GET sA (?b + 12) = 1"
    using GET_PUT_tag[of 8 _ _ True] GET_PUT_tag[of 0 _ _ True]
    by (simp_all add: sA_def GET_PUT_lt GET_PUT_gt GET_def[of "_\<lparr>heap_listp := _, freelist := _\<rparr>"]
        GET_def[symmetric] tag_def)
  have cA: "chain_ok sA [(8, True)]"
    by (rule chain_okI) (use o cap gA in \<open>simp_all add: fA algebra_simps\<close>)
  have hA: "heap_rel sA [(8, True)] []"
    using cA by (simp add: heap_rel_def fl_ok_def nodes_ok_def fA)
  have nA: "naf [(8, True)]" by simp
  have c256: "(16::int) \<le> 256" "(256::int) mod 8 = 0" by simp_all
  show ?thesis
  proof (cases "mem_brk sA + 256 \<le> mem_max_addr sA")
    case True
    from extend_heap_spec[OF hA nA c256 True]
    obtain s' pre z fl' where ex: "extend_heap sA (256 div WSIZE) = (s', heap_listp sA + extent pre)"
      and h': "heap_rel s' (pre @ [(z, False)]) fl'" and n': "naf (pre @ [(z, False)])"
      and pre: "pre \<noteq> []" and hl: "heap_listp s' = heap_listp sA"
      and al: "allocs (heap_listp sA) (pre @ [(z, False)]) = allocs (heap_listp sA) [(8, True)]"
      by blast
    have "heap_listp sA + extent pre \<noteq> 0"
      using chain_pre(1)[OF heap_relD(1)[OF h'] pre] fA o by simp
    with mi ex i have "s = s'" by (simp add: CHUNKSIZE_def)
    then show ?thesis
      by (intro exI[of _ "pre @ [(z, False)]"] exI[of _ fl']) (use h' n' al hl in simp)
  next
    case False
    then have "mem_max_addr sA < mem_brk sA + 256" by simp
    from extend_heap_fail[OF c256(2) _ _ this] have "snd (extend_heap sA (256 div WSIZE)) = 0" by simp
    with mi i show ?thesis by (simp add: CHUNKSIZE_def split: prod.splits)
  qed
qed

section \<open>The invariant holds in every reachable state\<close>

lemma prologue_alloc: "chain_ok s bs \<Longrightarrow> (heap_listp s, 8) \<in> allocs (heap_listp s) bs"
  using chain_okD(6,7)[of s bs] by (cases bs) auto

lemma live_block:
  assumes c: "chain_ok s bs" and p: "p \<in> live (heap_listp s) bs"
  obtains pre z post where "bs = pre @ (z, True) # post" "p = heap_listp s + extent pre" "pre \<noteq> []"
proof -
  from p obtain z where z: "(p, z) \<in> allocs (heap_listp s) bs" and ne: "p \<noteq> heap_listp s"
    by (auto simp add: live_def)
  from allocs_split[OF z] obtain pre post where b: "bs = pre @ (z, True) # post"
    "p = heap_listp s + extent pre" by blast
  with ne have "pre \<noteq> []" by auto
  with b that show ?thesis by blast
qed

lemma live_insert:
  assumes c: "chain_ok s bs'" and a: "allocs (heap_listp s) bs' = insert (p, z) A" and z: "z \<noteq> 8"
  shows "fst ` allocs (heap_listp s) bs' - {heap_listp s} = insert p (fst ` A - {heap_listp s})"
proof -
  have "p \<noteq> heap_listp s"
  proof
    assume e: "p = heap_listp s"
    have "(p, z) \<in> allocs (heap_listp s) bs'" using a by simp
    from allocs_unique[OF this _ chain_sizes_ok[OF c]] prologue_alloc[OF c] e z show False by simp
  qed
  then show ?thesis unfolding a by auto
qed

lemma live_remove:
  assumes c: "chain_ok s bs" and z: "(p, z) \<in> allocs (heap_listp s) bs"
  shows "fst ` (allocs (heap_listp s) bs - {(p, z)}) = fst ` allocs (heap_listp s) bs - {p}"
proof -
  have u: "z' = z" if "(p, z') \<in> allocs (heap_listp s) bs" for z'
    using allocs_unique[OF that z chain_sizes_ok[OF c]] .
  show ?thesis
  proof (rule set_eqI, rule iffI)
    fix x assume "x \<in> fst ` (allocs (heap_listp s) bs - {(p, z)})"
    then obtain y where y: "(x, y) \<in> allocs (heap_listp s) bs" "(x, y) \<noteq> (p, z)" by force
    with u[of y] have "x \<noteq> p" by blast
    with y show "x \<in> fst ` allocs (heap_listp s) bs - {p}" by force
  next
    fix x assume "x \<in> fst ` allocs (heap_listp s) bs - {p}"
    then obtain y where y: "(x, y) \<in> allocs (heap_listp s) bs" "x \<noteq> p" by auto
    then have "(x, y) \<in> allocs (heap_listp s) bs - {(p, z)}" by simp
    then show "x \<in> fst ` (allocs (heap_listp s) bs - {(p, z)})" by force
  qed
qed

lemma live_ins: "p \<noteq> h \<Longrightarrow> fst ` insert (p, z) A - {h} = insert p (fst ` A - {h})"
  by auto

lemma fresh_not_prologue:
  assumes c: "chain_ok s bs" and c': "chain_ok s' bs'" and hl: "heap_listp s' = heap_listp s"
    and a: "allocs (heap_listp s) bs' = insert (p, z) (allocs (heap_listp s) bs)"
    and f: "(p, z) \<notin> allocs (heap_listp s) bs"
  shows "p \<noteq> heap_listp s"
proof
  assume e: "p = heap_listp s"
  have 1: "(heap_listp s, 8) \<in> allocs (heap_listp s) bs'" using prologue_alloc[OF c'] hl by simp
  have 2: "(heap_listp s, z) \<in> allocs (heap_listp s) bs'" using a e by simp
  from allocs_unique[OF 2 1 chain_sizes_ok[OF c']] have "z = 8" .
  with f e prologue_alloc[OF c] show False by simp
qed

lemma heap_inv_init:
  assumes "provider_ok s0" "mm_init s0 = (s, 0)"
  shows "heap_inv s {}"
proof -
  from init_spec[OF assms] obtain bs fl where
    "heap_rel s bs fl" "naf bs" "allocs (heap_listp s) bs = {(heap_listp s, 8)}" by blast
  then show ?thesis unfolding heap_inv_def live_def by (intro exI[of _ bs] exI[of _ fl]) simp
qed

lemma heap_inv_fresh:
  assumes h: "heap_rel s bs fl" and h': "heap_rel s' bs' fl'" and n': "naf bs'"
    and hl: "heap_listp s' = heap_listp s"
    and a: "if p = 0 then allocs (heap_listp s) bs' = allocs (heap_listp s) bs
            else \<exists>z. (p, z) \<notin> allocs (heap_listp s) bs
                   \<and> allocs (heap_listp s) bs' = insert (p, z) (allocs (heap_listp s) bs)"
  shows "heap_inv s' (if p = 0 then live (heap_listp s) bs else insert p (live (heap_listp s) bs))"
proof (cases "p = 0")
  case True
  with a h' n' hl show ?thesis unfolding heap_inv_def live_def
    by (intro exI[of _ bs'] exI[of _ fl']) simp
next
  case False
  with a obtain z where z: "(p, z) \<notin> allocs (heap_listp s) bs"
    "allocs (heap_listp s) bs' = insert (p, z) (allocs (heap_listp s) bs)" by auto
  from fresh_not_prologue[OF heap_relD(1)[OF h] heap_relD(1)[OF h'] hl z(2) z(1)]
  have ne: "p \<noteq> heap_listp s" .
  have "live (heap_listp s') bs' = insert p (live (heap_listp s) bs)"
    unfolding live_def hl z(2) using live_ins[OF ne] by simp
  with False h' n' show ?thesis unfolding heap_inv_def
    by (intro exI[of _ bs'] exI[of _ fl']) simp
qed

lemma heap_inv_malloc:
  assumes i: "heap_inv s L" and sz: "0 \<le> n" "n + 15 < 18446744073709551616"
    and m: "malloc s n = Some (s', p)"
  shows "heap_inv s' (if p = 0 then L else insert p L)"
proof (cases "n = 0")
  case True
  with m have "s' = s" "p = 0" by (simp_all add: malloc_def)
  with i show ?thesis by simp
next
  case False
  with sz have pos: "0 < n" by simp
  from i obtain bs fl where h: "heap_rel s bs fl" and n: "naf bs"
    and L: "L = live (heap_listp s) bs" unfolding heap_inv_def by blast
  from malloc_spec[OF h n pos sz(2)] m obtain bs' fl' where
    h': "heap_rel s' bs' fl'" and n': "naf bs'" and hl: "heap_listp s' = heap_listp s"
    and a: "if p = 0 then allocs (heap_listp s) bs' = allocs (heap_listp s) bs
               else \<exists>z. adjust n \<le> z \<and> (p, z) \<notin> allocs (heap_listp s) bs
                      \<and> allocs (heap_listp s) bs' = insert (p, z) (allocs (heap_listp s) bs)"
    by auto
  have a': "if p = 0 then allocs (heap_listp s) bs' = allocs (heap_listp s) bs
            else \<exists>z. (p, z) \<notin> allocs (heap_listp s) bs
                   \<and> allocs (heap_listp s) bs' = insert (p, z) (allocs (heap_listp s) bs)"
    using a by (cases "p = 0") auto
  from heap_inv_fresh[OF h h' n' hl a'] L show ?thesis by (cases "p = 0") simp_all
qed

lemma heap_inv_calloc:
  assumes i: "heap_inv s L" and sz: "u64 (k * m) + 15 < 18446744073709551616"
    and m: "calloc s k m = Some (s', p)"
  shows "heap_inv s' (if p = 0 then L else insert p L)"
proof -
  from i obtain bs fl where h: "heap_rel s bs fl" and n: "naf bs"
    and L: "L = live (heap_listp s) bs" unfolding heap_inv_def by blast
  from calloc_spec[OF h n sz] m obtain bs' fl' where
    h': "heap_rel s' bs' fl'" and n': "naf bs'" and hl: "heap_listp s' = heap_listp s"
    and a: "if p = 0 then allocs (heap_listp s) bs' = allocs (heap_listp s) bs
               else \<exists>z. u64 (k * m) + 8 \<le> z \<and> (p, z) \<notin> allocs (heap_listp s) bs
                      \<and> allocs (heap_listp s) bs' = insert (p, z) (allocs (heap_listp s) bs)"
    by auto
  have a': "if p = 0 then allocs (heap_listp s) bs' = allocs (heap_listp s) bs
            else \<exists>z. (p, z) \<notin> allocs (heap_listp s) bs
                   \<and> allocs (heap_listp s) bs' = insert (p, z) (allocs (heap_listp s) bs)"
    using a by (cases "p = 0") auto
  from heap_inv_fresh[OF h h' n' hl a'] L show ?thesis by (cases "p = 0") simp_all
qed

lemma heap_inv_free:
  assumes i: "heap_inv s L" and p: "p \<in> L"
  shows "heap_inv (free s p) (L - {p})"
proof -
  from i obtain bs fl where h: "heap_rel s bs fl" and n: "naf bs"
    and L: "L = live (heap_listp s) bs" unfolding heap_inv_def by blast
  note c = heap_relD(1)[OF h]
  from live_block[OF c p[unfolded L]] obtain pre z post where
    b: "bs = pre @ (z, True) # post" "p = heap_listp s + extent pre" "pre \<noteq> []" by blast
  from free_spec[OF h[unfolded b(1)] b(3) n[unfolded b(1)] b(2)] obtain bs' fl' where
    h': "heap_rel (free s p) bs' fl'" and n': "naf bs'"
    and hl: "heap_listp (free s p) = heap_listp s"
    and a: "allocs (heap_listp s) bs' = allocs (heap_listp s) bs - {(p, z)}"
    unfolding b(1) by blast
  have pz: "(p, z) \<in> allocs (heap_listp s) bs" unfolding b(1) b(2) by simp
  have "live (heap_listp (free s p)) bs' = L - {p}"
    unfolding live_def hl a live_remove[OF c pz] L by auto
  with h' n' show ?thesis unfolding heap_inv_def by (intro exI[of _ bs'] exI[of _ fl']) simp
qed

lemma heap_inv_realloc:
  assumes i: "heap_inv s L" and p: "p \<in> L" and sz: "0 < n" "n + 23 < 18446744073709551616"
    and r: "realloc s p n = Some (s', q)"
  shows "heap_inv s' (if q = 0 then L else insert q (L - {p}))"
proof -
  from i obtain bs fl where h: "heap_rel s bs fl" and n: "naf bs"
    and L: "L = live (heap_listp s) bs" unfolding heap_inv_def by blast
  note c = heap_relD(1)[OF h]
  from live_block[OF c p[unfolded L]] obtain pre z post where
    b: "bs = pre @ (z, True) # post" "p = heap_listp s + extent pre" "pre \<noteq> []" by blast
  have pz: "(p, z) \<in> allocs (heap_listp s) bs" unfolding b(1) b(2) by simp
  have pne: "p \<noteq> heap_listp s" using p L by (simp add: live_def)
  from realloc_spec[OF h[unfolded b(1)] b(3) n[unfolded b(1)] b(2) sz] r obtain bs' fl' where
    h': "heap_rel s' bs' fl'" and n': "naf bs'" and hl: "heap_listp s' = heap_listp s"
    and a: "if q = 0 then allocs (heap_listp s) bs' = allocs (heap_listp s) bs
               else \<exists>z'. allocs (heap_listp s) bs'
                            = insert (q, z') (allocs (heap_listp s) bs - {(p, z)})
                      \<and> (z < ALIGN n \<longrightarrow> ALIGN n + 8 \<le> z')
                      \<and> (ALIGN n \<le> z \<longrightarrow> q = p)"
    unfolding b(1) by auto
  note c' = heap_relD(1)[OF h']
  show ?thesis
  proof (cases "q = 0")
    case True
    with a h' n' hl L show ?thesis unfolding heap_inv_def live_def
      by (intro exI[of _ bs'] exI[of _ fl']) simp
  next
    case False
    with a obtain z' where z': "allocs (heap_listp s) bs'
                            = insert (q, z') (allocs (heap_listp s) bs - {(p, z)})"
       "z < ALIGN n \<longrightarrow> ALIGN n + 8 \<le> z'" "ALIGN n \<le> z \<longrightarrow> q = p" by auto
    have qne: "q \<noteq> heap_listp s"
    proof (cases "ALIGN n \<le> z")
      case True with z'(3) pne show ?thesis by simp
    next
      case F: False
      with z'(2) chain_block(3)[OF c[unfolded b(1)] b(3) b(2)] have z8: "z' \<noteq> 8" by simp
      show ?thesis
      proof
        assume e: "q = heap_listp s"
        have 1: "(heap_listp s, 8) \<in> allocs (heap_listp s) bs'"
          using prologue_alloc[OF c'] hl by simp
        have 2: "(heap_listp s, z') \<in> allocs (heap_listp s) bs'" using z'(1) e by simp
        from allocs_unique[OF 2 1 chain_sizes_ok[OF c']] z8 show False by simp
      qed
    qed
    have "live (heap_listp s') bs' = insert q (L - {p})"
      unfolding live_def hl z'(1) live_ins[OF qne] live_remove[OF c pz] L live_def by auto
    with False h' n' show ?thesis unfolding heap_inv_def
      by (intro exI[of _ bs'] exI[of _ fl']) simp
  qed
qed

lemma heap_inv_store:
  assumes i: "heap_inv s L" and p: "p \<in> L" and a: "p \<le> a" "a < p + GET_SIZE s (HDRP p) - 8"
  shows "heap_inv (s\<lparr>mem := (mem s)(a := v)\<rparr>) L"
proof -
  from i obtain bs fl where h: "heap_rel s bs fl" and n: "naf bs"
    and L: "L = live (heap_listp s) bs" unfolding heap_inv_def by blast
  note c = heap_relD(1)[OF h]
  from live_block[OF c p[unfolded L]] obtain pre z post where
    b: "bs = pre @ (z, True) # post" "p = heap_listp s + extent pre" "pre \<noteq> []" by blast
  have z: "GET_SIZE s (HDRP p) = z"
    using chain_block(11)[OF c[unfolded b(1)] b(3) b(2)] by (simp add: macro_simps)
  have r: "region s (s\<lparr>mem := (mem s)(a := v)\<rparr>) a (a + 1)" by (simp add: region_def)
  from payload_write[OF h[unfolded b(1)] b(3) b(2) r] a z
  have "heap_rel (s\<lparr>mem := (mem s)(a := v)\<rparr>) bs fl" unfolding b(1) by simp
  with n L show ?thesis unfolding heap_inv_def by (intro exI[of _ bs] exI[of _ fl]) simp
qed

lemma live_nonnull: "heap_inv s L \<Longrightarrow> p \<in> L \<Longrightarrow> p \<noteq> 0"
proof -
  assume i: "heap_inv s L" and p: "p \<in> L"
  from i obtain bs fl where h: "heap_rel s bs fl" and L: "L = live (heap_listp s) bs"
    unfolding heap_inv_def by blast
  note c = heap_relD(1)[OF h]
  from live_block[OF c p[unfolded L]] obtain pre z post where
    b: "bs = pre @ (z, True) # post" "p = heap_listp s + extent pre" "pre \<noteq> []" by blast
  from chain_block(6)[OF c[unfolded b(1)] b(3) b(2)] chain_okD(1,3)[OF c] show ?thesis by simp
qed

lemma reach_inv: "reach s L \<Longrightarrow> heap_inv s L"
proof (induction rule: reach.induct)
  case (init s0 s) then show ?case by (rule heap_inv_init)
next
  case (malloc s L n s' p) then show ?case using heap_inv_malloc by blast
next
  case (free s L p) then show ?case using heap_inv_free by blast
next
  case (free_null s L) then show ?case by (simp add: free_def)
next
  case (realloc s L p n s' q) then show ?case using heap_inv_realloc by blast
next
  case (realloc_null s L n s' q)
  then have "malloc s n = Some (s', q)" by (simp add: realloc_def)
  with realloc_null show ?case using heap_inv_malloc by blast
next
  case (realloc_zero s L p s' q)
  from live_nonnull[OF realloc_zero.IH realloc_zero.hyps(2)] realloc_zero.hyps(3)
  have "s' = free s p" by (simp add: realloc_def)
  with realloc_zero show ?case using heap_inv_free by blast
next
  case (calloc s L k m s' p) then show ?case using heap_inv_calloc by blast
next
  case (store s L p a v) then show ?case using heap_inv_store by blast
qed

section \<open>The physical walk\<close>

lemma walk_seg:
  "seg s a bs \<Longrightarrow> sizes_ok bs \<Longrightarrow> GET s (a + extent bs - 4) = 1
     \<Longrightarrow> heap_walk s a = Some (map fst (blocks a bs))"
proof (induction bs arbitrary: a)
  case Nil
  then have "GET_SIZE s (HDRP a) = 0" by (simp add: GET_SIZE_eq macro_simps)
  then show ?case by (subst heap_walk.simps) simp
next
  case (Cons b bs)
  obtain z al where b: "b = (z, al)" by (cases b)
  from Cons.prems b have z: "8 \<le> z" "z mod 8 = 0" and g: "GET s (a - 4) = tag z al"
    and sg: "seg s (a + z) bs" and so: "sizes_ok bs" by auto
  from GET_tag_size[OF g z(2)] have gs: "GET_SIZE s (HDRP a) = z" by (simp add: macro_simps)
  then have nx: "NEXT_BLKP s a = a + z" by (simp add: macro_simps)
  from Cons.prems(3) b have "GET s (a + z + extent bs - 4) = 1" by (simp add: add.assoc)
  from Cons.IH[OF sg so this] have "heap_walk s (a + z) = Some (map fst (blocks (a + z) bs))" .
  then show ?case using gs nx z b by (subst heap_walk.simps) simp
qed

lemma walk_naf:
  "seg s a bs \<Longrightarrow> sizes_ok bs \<Longrightarrow> naf bs \<Longrightarrow> GET s (a + extent bs - 4) = 1
     \<Longrightarrow> list_all (\<lambda>bp. \<not> adjacent_free s bp) (map fst (blocks a bs))"
proof (induction bs arbitrary: a rule: naf.induct)
  case 1
  then show ?case by simp
next
  case (2 x)
  obtain z al where b: "x = (z, al)" by (cases x)
  from 2 b have z: "z mod 8 = 0" and g: "GET s (a - 4) = tag z al"
    and e: "GET s (a + z - 4) = 1" by auto
  from GET_tag_size[OF g z] have nx: "NEXT_BLKP s a = a + z" by (simp add: macro_simps)
  have "GET_ALLOC s (HDRP (NEXT_BLKP s a)) = 1" unfolding nx using e
    by (simp add: GET_ALLOC_eq macro_simps)
  then show ?case using b by (simp add: adjacent_free_def)
next
  case (3 z al z' al' bs)
  from "3.prems" have z: "z mod 8 = 0" "z' mod 8 = 0" and g: "GET s (a - 4) = tag z al"
    and g': "GET s (a + z - 4) = tag z' al'" and al: "al \<or> al'"
    and sg: "seg s (a + z) ((z', al') # bs)" and so: "sizes_ok ((z', al') # bs)"
    and n: "naf ((z', al') # bs)" by auto
  from GET_tag_size[OF g z(1)] have nx: "NEXT_BLKP s a = a + z" by (simp add: macro_simps)
  from GET_tag_alloc[OF g z(1)] have a1: "GET_ALLOC s (HDRP a) = (if al then 1 else 0)"
    by (simp add: macro_simps)
  from GET_tag_alloc[OF g' z(2)] have a2: "GET_ALLOC s (HDRP (NEXT_BLKP s a)) = (if al' then 1 else 0)"
    unfolding nx by (simp add: macro_simps)
  from a1 a2 al have h: "\<not> adjacent_free s a" by (auto simp add: adjacent_free_def)
  from "3.prems"(4) have "GET s (a + z + extent ((z', al') # bs) - 4) = 1" by (simp add: add.assoc)
  from "3.IH"[OF sg so n this] h show ?case by simp
qed

lemma heap_no_adjacent_free:
  assumes h: "heap_rel s bs fl" and n: "naf bs"
  shows "no_adjacent_free s"
proof -
  note c = heap_relD(1)[OF h]
  note sg = chain_okD(9)[OF c]
  have e: "GET s (heap_listp s + extent bs - 4) = 1" using chain_okD(10,11)[OF c] by simp
  from walk_seg[OF sg chain_sizes_ok[OF c] e] walk_naf[OF sg chain_sizes_ok[OF c] n e]
  show ?thesis by (simp add: no_adjacent_free_def)
qed

section \<open>Reachability of the scenario states\<close>

lemma not_prologue:
  assumes c: "chain_ok s bs" and a: "(q, z) \<in> allocs (heap_listp s) bs" and z: "z \<noteq> 8"
  shows "q \<noteq> heap_listp s"
proof
  assume e: "q = heap_listp s"
  from allocs_unique[OF a[unfolded e] prologue_alloc[OF c] chain_sizes_ok[OF c]] z
  show False by simp
qed

lemma alloc_block:
  assumes h: "heap_rel s bs fl" and a: "(q, z) \<in> allocs (heap_listp s) bs"
    and ne: "q \<noteq> heap_listp s"
  shows "GET_SIZE s (HDRP q) = z" "GET_ALLOC s (HDRP q) = 1"
    "mem_start_brk s \<le> q" "q + (z - 8) \<le> mem_brk s"
proof -
  note c = heap_relD(1)[OF h]
  from allocs_split[OF a] obtain pre post where b: "bs = pre @ (z, True) # post"
    "q = heap_listp s + extent pre" by blast
  from ne b(2) have p: "pre \<noteq> []" by auto
  note cb = chain_block[OF c[unfolded b(1)] p b(2)]
  from cb(11,12) show "GET_SIZE s (HDRP q) = z" "GET_ALLOC s (HDRP q) = 1"
    by (simp_all add: macro_simps)
  from cb(6) chain_okD(3)[OF c] show "mem_start_brk s \<le> q" by simp
  from cb(7,8) show "q + (z - 8) \<le> mem_brk s" by simp
qed

lemma extend_room:
  assumes "snd (extend_heap s (max (adjust n) CHUNKSIZE div WSIZE)) \<noteq> 0"
  shows "mem_brk s + max (adjust n) CHUNKSIZE \<le> mem_max_addr s"
proof (rule ccontr)
  assume "\<not> ?thesis"
  then have m: "mem_max_addr s < mem_brk s + max (adjust n) CHUNKSIZE" by simp
  have "max (adjust n) CHUNKSIZE mod 8 = 0" "0 \<le> max (adjust n) CHUNKSIZE"
    "max (adjust n) CHUNKSIZE < 18446744073709551616"
    using adjust_bounds[of n] by (auto simp add: CHUNKSIZE_def max_def)
  from extend_heap_fail[OF this m] assms show False by simp
qed

lemma provider_ok_scenario: "provider_ok (provider 4096 4096)"
  by (simp add: provider_ok_def provider_def)

lemma reach_scenario_init: "reach scenario_init {}"
proof -
  have "mm_init (provider 4096 4096) = (scenario_init, 0)"
    using scenario_alloc_facts(1) unfolding scenario_init_def
    by (metis prod.collapse)
  from reach.init[OF provider_ok_scenario this] show ?thesis .
qed

lemma some_the: "\<not> Option.is_none x \<Longrightarrow> snd (the x) = b \<Longrightarrow> x = Some (fst (the x), b)"
  by (cases x) auto

lemma reach_scenario_alloc: "reach (fst scenario_alloc) {4112}"
proof -
  have "\<not> Option.is_none (malloc scenario_init 100)" "snd scenario_alloc = 4112" by code_simp+
  from some_the[OF this[unfolded scenario_alloc_def]]
  have "malloc scenario_init 100 = Some (fst scenario_alloc, 4112)"
    unfolding scenario_alloc_def .
  from reach.malloc[OF reach_scenario_init _ _ this] show ?thesis by simp
qed

lemma reach_wrap_free: "reach wrap_free {4176}"
proof -
  have a: "\<not> Option.is_none (malloc scenario_init 56)" "snd wrap_a = 4112" by code_simp+
  from some_the[OF a[unfolded wrap_a_def]]
  have "malloc scenario_init 56 = Some (fst wrap_a, 4112)" unfolding wrap_a_def .
  from reach.malloc[OF reach_scenario_init _ _ this] have r1: "reach (fst wrap_a) {4112}" by simp
  have b: "\<not> Option.is_none (malloc (fst wrap_a) 56)" "snd wrap_b = 4176" by code_simp+
  from some_the[OF b[unfolded wrap_b_def]]
  have "malloc (fst wrap_a) 56 = Some (fst wrap_b, 4176)" unfolding wrap_b_def .
  from reach.malloc[OF r1 _ _ this] have r2: "reach (fst wrap_b) {4176, 4112}" by simp
  from reach.free[OF r2, of 4112] a(2) show ?thesis unfolding wrap_free_def
    by (simp add: insert_Diff_if)
qed

section \<open>No two adjacent free blocks\<close>

text \<open>
  C1, for the clients of \<open>reach\<close>. In every state that is reached from a fresh provider
  by \<^verbatim>\<open>mm_init\<close> and then any sequence of \<^verbatim>\<open>malloc\<close>, \<^verbatim>\<open>free\<close>, \<^verbatim>\<open>realloc\<close> and \<^verbatim>\<open>calloc\<close>
  (and of stores into payloads held), with only null or held pointers freed and resized
  and every size below the wrap-around of \<^verbatim>\<open>ALIGN\<close>, the walk from \<open>heap_listp\<close> by
  \<^verbatim>\<open>NEXT_BLKP\<close> ends at the epilogue, and no block on it is free together with its
  physical successor.
\<close>

theorem no_adjacent_free_blocks: "reach s L \<Longrightarrow> no_adjacent_free s"
proof -
  assume "reach s L"
  from reach_inv[OF this] obtain bs fl where "heap_rel s bs fl" "naf bs"
    unfolding heap_inv_def by blast
  then show ?thesis by (rule heap_no_adjacent_free)
qed

theorem no_adjacent_free_blocks_witness:
  "reach wrap_free {4176} \<and> no_adjacent_free wrap_free"
  using no_adjacent_free_blocks[of wrap_free "{4176}"] reach_wrap_free by simp

text \<open>Without the bound on the sizes the property is lost. After
  \<^verbatim>\<open>mm_init(); a = malloc(56); b = malloc(56); free(a)\<close> the request \<^verbatim>\<open>p = malloc(2^64 - 8)\<close>
  is adjusted to a block size of 0 and returns the free block at 4112; \<^verbatim>\<open>free(p)\<close> then
  leaves a free block at 4112 whose physical successor at 4240 is free as well.\<close>

theorem no_adjacent_free_blocks_counterexample:
  "map_option snd (malloc wrap_free 18446744073709551608) = Some 4112
   \<and> heap_walk wrap_end (heap_listp wrap_end) = Some [4104, 4112, 4240]
   \<and> GET_ALLOC wrap_end (HDRP 4112) = 0
   \<and> NEXT_BLKP wrap_end 4112 = 4240
   \<and> GET_ALLOC wrap_end (HDRP 4240) = 0
   \<and> \<not> no_adjacent_free wrap_end"
  by code_simp

section \<open>A miss of find\_fit\<close>

text \<open>
  C2, for the clients of \<open>reach\<close> and requests that \<^verbatim>\<open>ALIGN\<close> does not wrap. In a state
  reached as described for \<open>reach\<close> (in particular: a provider that cannot grow beyond
  \<open>2 ^ 32\<close> bytes), for a request \<open>n\<close> above 0 with \<open>n + 15 < 2^64\<close> whose adjusted size no
  free block fits (\<^verbatim>\<open>find_fit\<close> returns null), when \<^verbatim>\<open>extend_heap\<close>, called with
  \<open>max (adjust n) CHUNKSIZE div WSIZE\<close> words, returns a block, then this block is free and
  at least \<open>adjust n\<close> bytes long; \<^verbatim>\<open>malloc\<close> places the request in it and returns its
  payload pointer, which is not null; and after the call the block at this pointer is
  allocated, at least \<open>adjust n\<close> bytes long, with a payload of at least \<open>n\<close> bytes that
  lies inside the heap.
\<close>

theorem extend_fits:
  assumes r: "reach s L" and n: "0 < n" "n + 15 < 18446744073709551616"
    and ff: "find_fit s (adjust n) = Some 0"
    and ok: "snd (extend_heap s (max (adjust n) CHUNKSIZE div WSIZE)) \<noteq> 0"
  shows "adjust n \<le> GET_SIZE (fst (extend_heap s (max (adjust n) CHUNKSIZE div WSIZE)))
                       (HDRP (snd (extend_heap s (max (adjust n) CHUNKSIZE div WSIZE))))
       \<and> GET_ALLOC (fst (extend_heap s (max (adjust n) CHUNKSIZE div WSIZE)))
                       (HDRP (snd (extend_heap s (max (adjust n) CHUNKSIZE div WSIZE)))) = 0
       \<and> (\<exists>s'. malloc s n = Some (s', snd (extend_heap s (max (adjust n) CHUNKSIZE div WSIZE)))
              \<and> s' = place (fst (extend_heap s (max (adjust n) CHUNKSIZE div WSIZE)))
                        (snd (extend_heap s (max (adjust n) CHUNKSIZE div WSIZE))) (adjust n)
              \<and> GET_ALLOC s' (HDRP (snd (extend_heap s (max (adjust n) CHUNKSIZE div WSIZE)))) = 1
              \<and> adjust n
                    \<le> GET_SIZE s' (HDRP (snd (extend_heap s (max (adjust n) CHUNKSIZE div WSIZE))))
              \<and> n \<le> GET_SIZE s' (HDRP (snd (extend_heap s (max (adjust n) CHUNKSIZE div WSIZE)))) - 8
              \<and> mem_start_brk s' \<le> snd (extend_heap s (max (adjust n) CHUNKSIZE div WSIZE))
              \<and> snd (extend_heap s (max (adjust n) CHUNKSIZE div WSIZE))
                    + (GET_SIZE s' (HDRP (snd (extend_heap s (max (adjust n) CHUNKSIZE div WSIZE)))) - 8)
                  \<le> mem_brk s')"
proof -
  let ?E = "extend_heap s (max (adjust n) CHUNKSIZE div WSIZE)"
  from reach_inv[OF r] obtain bs fl where h: "heap_rel s bs fl" and nf: "naf bs"
    unfolding heap_inv_def by blast
  from n have n0: "n \<noteq> 0" by simp
  from malloc_extend[OF h nf n0 ff extend_room[OF ok]]
  obtain s1 pre z fl1 where e: "?E = (s1, heap_listp s + extent pre)"
    and az: "adjust n \<le> z" and gz: "GET_SIZE s1 (HDRP (heap_listp s + extent pre)) = z"
    and m: "malloc s n = Some (place s1 (heap_listp s + extent pre) (adjust n),
                               heap_listp s + extent pre)"
    and h1: "heap_rel s1 (pre @ [(z, False)]) fl1" and pre: "pre \<noteq> []"
    and hl1: "heap_listp s1 = heap_listp s" by blast
  let ?bp = "heap_listp s + extent pre"
  let ?s' = "place s1 ?bp (adjust n)"
  have bp0: "?bp \<noteq> 0" using ok e by simp
  have fr: "GET_ALLOC s1 (HDRP ?bp) = 0"
    using chain_block(12)[OF heap_relD(1)[OF h1] pre, of ?bp] hl1 by (simp add: macro_simps)
  from malloc_spec[OF h nf n] m bp0 obtain bs' fl' z' where
    h': "heap_rel ?s' bs' fl'" and hl': "heap_listp ?s' = heap_listp s"
    and zz: "adjust n \<le> z'" and nin: "(?bp, z') \<notin> allocs (heap_listp s) bs"
    and al: "allocs (heap_listp s) bs' = insert (?bp, z') (allocs (heap_listp s) bs)"
    by auto
  have ne: "?bp \<noteq> heap_listp ?s'"
    using fresh_not_prologue[OF heap_relD(1)[OF h] heap_relD(1)[OF h'] hl' al nin] hl' by simp
  have qa: "(?bp, z') \<in> allocs (heap_listp ?s') bs'" using al hl' by simp
  note blk = alloc_block[OF h' qa ne]
  note af = adjust_facts[OF n]
  have "GET_ALLOC ?s' (HDRP ?bp) = 1 \<and> adjust n \<le> GET_SIZE ?s' (HDRP ?bp)
      \<and> n \<le> GET_SIZE ?s' (HDRP ?bp) - 8 \<and> mem_start_brk ?s' \<le> ?bp
      \<and> ?bp + (GET_SIZE ?s' (HDRP ?bp) - 8) \<le> mem_brk ?s'"
    using blk zz af(3) by simp
  with m az gz fr show ?thesis unfolding e by simp
qed

theorem extend_fits_witness:
  "reach scenario_init {} \<and> (0::int) < 1000 \<and> find_fit scenario_init (adjust 1000) = Some 0
   \<and> snd (extend_heap scenario_init (max (adjust 1000) CHUNKSIZE div WSIZE)) = 4112
   \<and> adjust 1000 \<le> GET_SIZE (fst (extend_heap scenario_init (max (adjust 1000) CHUNKSIZE div WSIZE)))
                       (HDRP 4112)
   \<and> (\<exists>s'. malloc scenario_init 1000 = Some (s', 4112)
          \<and> GET_ALLOC s' (HDRP 4112) = 1 \<and> adjust 1000 \<le> GET_SIZE s' (HDRP 4112)
          \<and> 4112 + (GET_SIZE s' (HDRP 4112) - 8) \<le> mem_brk s')"
proof -
  have f: "find_fit scenario_init (adjust 1000) = Some 0" by code_simp
  have e: "snd (extend_heap scenario_init (max (adjust 1000) CHUNKSIZE div WSIZE)) = 4112"
    by code_simp
  then have k: "snd (extend_heap scenario_init (max (adjust 1000) CHUNKSIZE div WSIZE)) \<noteq> 0"
    by simp
  from extend_fits[OF reach_scenario_init _ _ f k] reach_scenario_init f e
  show ?thesis by auto
qed

text \<open>Without the two bounds the claim fails. With the free list empty (\<^verbatim>\<open>malloc(248)\<close> took the
  whole first chunk), the request \<^verbatim>\<open>malloc(2^64 - 8)\<close> is adjusted to 0, \<^verbatim>\<open>find_fit\<close> returns
  null, \<^verbatim>\<open>extend_heap\<close> returns the block at 4368, and \<^verbatim>\<open>place\<close> leaves this block free and on
  the free list: \<^verbatim>\<open>malloc\<close> returns 4368, and the next \<^verbatim>\<open>malloc(8)\<close> returns 4368 again. On a
  provider that can grow to \<open>2 ^ 33\<close> bytes, for \<^verbatim>\<open>malloc(2^32 + 100)\<close> right after \<^verbatim>\<open>mm_init\<close>,
  \<^verbatim>\<open>find_fit\<close> returns null, \<^verbatim>\<open>extend_heap\<close> returns a block, and this block has 368 bytes, as
  the header keeps only 32 bits of its size: fewer than the adjusted size.\<close>

theorem extend_fits_counterexample:
  "freelist (fst drained) = 0
   \<and> find_fit (fst drained) (adjust 18446744073709551608) = Some 0
   \<and> snd (extend_heap (fst drained) (max (adjust 18446744073709551608) CHUNKSIZE div WSIZE)) = 4368
   \<and> snd drained_wrap = 4368
   \<and> GET_ALLOC (fst drained_wrap) (HDRP 4368) = 0
   \<and> GET_ADDR (fst drained_wrap) (freelist (fst drained_wrap)) = 4368
   \<and> snd drained_again = 4368
   \<and> find_fit wide_init (adjust 4294967396) = Some 0
   \<and> snd (extend_heap wide_init (max (adjust 4294967396) CHUNKSIZE div WSIZE)) = 4112
   \<and> GET_SIZE (fst (extend_heap wide_init (max (adjust 4294967396) CHUNKSIZE div WSIZE))) (HDRP 4112)
       = 368
   \<and> adjust 4294967396 = 4294967408"
  by code_simp

section \<open>The grow path of realloc\<close>

text \<open>
  C9, for the clients of \<open>reach\<close> and requests with \<open>n + 23 < 2^64\<close>. In a state reached as
  described for \<open>reach\<close> (in particular: a provider that cannot grow beyond \<open>2 ^ 32\<close> bytes),
  when \<^verbatim>\<open>realloc\<close> of a held pointer has to grow (the old block is shorter than \<open>ALIGN n\<close>)
  and returns a pointer \<open>q\<close> other than null, then \<open>q\<close> is what \<^verbatim>\<open>malloc\<close> returned for the
  request \<open>ALIGN n\<close>, which is the adjusted size of \<open>n\<close> and which \<^verbatim>\<open>malloc\<close> adjusts again
  to \<open>ALIGN n + 8\<close>; the block at \<open>q\<close> is allocated, and it is at least 8 bytes longer
  than the adjusted size of \<open>n\<close>.
\<close>

theorem grow_adjusted_twice:
  assumes r: "reach s L" and p: "p \<in> L" and sz: "0 < n" "n + 23 < 18446744073709551616"
    and g: "GET_SIZE s (HDRP p) < ALIGN n"
    and re: "realloc s p n = Some (s', q)" and q: "q \<noteq> 0"
  shows "adjust n = ALIGN n \<and> adjust (ALIGN n) = ALIGN n + 8
       \<and> (\<exists>s1. malloc s (ALIGN n) = Some (s1, q))
       \<and> adjust n + 8 \<le> GET_SIZE s' (HDRP q) \<and> GET_ALLOC s' (HDRP q) = 1"
proof -
  note i = reach_inv[OF r]
  from i obtain bs fl where h: "heap_rel s bs fl" and n: "naf bs"
    and L: "L = live (heap_listp s) bs" unfolding heap_inv_def by blast
  note c = heap_relD(1)[OF h]
  from live_block[OF c p[unfolded L]] obtain pre z post where
    b: "bs = pre @ (z, True) # post" "p = heap_listp s + extent pre" "pre \<noteq> []" by blast
  have z: "GET_SIZE s (HDRP p) = z"
    using chain_block(11)[OF c[unfolded b(1)] b(3) b(2)] by (simp add: macro_simps)
  from realloc_spec[OF h[unfolded b(1)] b(3) n[unfolded b(1)] b(2) sz] re q obtain bs' fl' z' where
    h': "heap_rel s' bs' fl'" and hl: "heap_listp s' = heap_listp s"
    and a: "allocs (heap_listp s) bs' = insert (q, z') (allocs (heap_listp s) bs - {(p, z)})"
    and z': "z < ALIGN n \<longrightarrow> ALIGN n + 8 \<le> z'"
    unfolding b(1) by auto
  from z' g z have zz: "ALIGN n + 8 \<le> z'" by simp
  have qa: "(q, z') \<in> allocs (heap_listp s') bs'" using a hl by simp
  have "z' \<noteq> 8" using zz g GET_SIZE_bounds(1)[of s "HDRP p"] by arith
  note blk = alloc_block[OF h' qa not_prologue[OF heap_relD(1)[OF h'] qa this]]
  have a1: "adjust n = ALIGN n" using sz by (auto simp add: adjust_def ALIGN_eq DSIZE_def)
  have pn: "p \<noteq> 0" using live_nonnull[OF i p] .
  have m: "\<exists>s1. malloc s (ALIGN n) = Some (s1, q)"
    using re q pn sz(1) g
    by (auto simp add: realloc_def Let_def split: option.splits if_splits prod.splits)
  from a1 ALIGN_twice(2)[OF sz] m blk(1,2) zz show ?thesis by simp
qed

theorem grow_adjusted_twice_witness:
  "reach (fst scenario_alloc) {4112} \<and> (4112::int) \<in> {4112} \<and> (0::int) < 200
   \<and> GET_SIZE (fst scenario_alloc) (HDRP 4112) < ALIGN 200
   \<and> realloc (fst scenario_alloc) 4112 200 = Some (fst scenario_grow, 4224)
   \<and> adjust 200 = ALIGN 200 \<and> adjust (ALIGN 200) = ALIGN 200 + 8
   \<and> (\<exists>s1. malloc (fst scenario_alloc) (ALIGN 200) = Some (s1, 4224))
   \<and> adjust 200 + 8 \<le> GET_SIZE (fst scenario_grow) (HDRP 4224)
   \<and> GET_ALLOC (fst scenario_grow) (HDRP 4224) = 1"
proof -
  have g: "GET_SIZE (fst scenario_alloc) (HDRP 4112) < ALIGN 200" by code_simp
  have e: "\<not> Option.is_none (realloc (fst scenario_alloc) 4112 200)" "snd scenario_grow = 4224"
    by code_simp+
  from some_the[OF e[unfolded scenario_grow_def]]
  have re: "realloc (fst scenario_alloc) 4112 200 = Some (fst scenario_grow, 4224)"
    unfolding scenario_grow_def .
  from grow_adjusted_twice[OF reach_scenario_alloc _ _ _ g re] reach_scenario_alloc g re
  show ?thesis by simp
qed

text \<open>For \<open>n = 2^64 - 16\<close> the second adjustment wraps: \<open>ALIGN n\<close> is \<open>2^64 - 8\<close>, \<^verbatim>\<open>malloc\<close>
  adjusts it to 0, and \<^verbatim>\<open>realloc\<close> returns the block at 4224 of 144 bytes. On a provider
  that can grow to \<open>2 ^ 33\<close> bytes, \<^verbatim>\<open>realloc(p, 2^32)\<close> after \<^verbatim>\<open>p = malloc(100)\<close> has to grow
  and returns the block at 4224, whose header says 16 bytes, as it keeps only 32 bits of
  the size.\<close>

theorem grow_adjusted_twice_counterexample:
  "GET_SIZE (fst scenario_alloc) (HDRP 4112) < ALIGN 18446744073709551600
   \<and> map_option snd (realloc (fst scenario_alloc) 4112 18446744073709551600) = Some 4224
   \<and> adjust (ALIGN 18446744073709551600) = 0
   \<and> adjust (ALIGN 18446744073709551600) \<noteq> ALIGN 18446744073709551600 + 8
   \<and> GET_SIZE (fst grow_wrap) (HDRP 4224) = 144
   \<and> \<not> adjust 18446744073709551600 + 8 \<le> GET_SIZE (fst grow_wrap) (HDRP 4224)
   \<and> snd wide_alloc = 4112
   \<and> GET_SIZE (fst wide_alloc) (HDRP 4112) < ALIGN 4294967296
   \<and> snd wide_grow = 4224
   \<and> GET_SIZE (fst wide_grow) (HDRP 4224) = 16
   \<and> \<not> adjust 4294967296 + 8 \<le> GET_SIZE (fst wide_grow) (HDRP 4224)"
  by code_simp

section \<open>Zero-initialised allocation\<close>

lemma calloc_fill:
  assumes "calloc s nmemb sz = Some (s', p)"
  shows "\<exists>s1. malloc s (u64 (nmemb * sz)) = Some (s1, p)"
    and "p \<noteq> 0 \<Longrightarrow> 0 \<le> i \<Longrightarrow> i < u64 (nmemb * sz) \<Longrightarrow> mem s' (p + i) = 0"
  using assms
  by (auto simp add: calloc_def Let_def mem_memset split: option.splits prod.splits if_splits)

lemma wrap_calloc_result:
  "calloc wrap_free 10 8 = Some (fst wrap_calloc, 4240)"
proof -
  have e: "\<not> Option.is_none (calloc wrap_free 10 8)" "snd wrap_calloc = 4240" by code_simp+
  from some_the[OF e[unfolded wrap_calloc_def]] show ?thesis unfolding wrap_calloc_def .
qed

text \<open>
  C7, for the clients of \<open>reach\<close> and byte counts that \<^verbatim>\<open>ALIGN\<close> does not wrap. In a state
  reached as described for \<open>reach\<close>, \<^verbatim>\<open>calloc(nmemb, sz)\<close> computes \<open>bytes = nmemb * sz\<close> in
  \<^verbatim>\<open>size_t\<close> (modulo \<open>2 ^ 64\<close>); when \<open>bytes + 15 < 2^64\<close> it returns, with the pointer that
  \<^verbatim>\<open>malloc(bytes)\<close> returned; and when this pointer is not null, its block is allocated,
  the payload of the block lies inside the heap and holds at least \<open>bytes\<close> bytes, and the
  first \<open>bytes\<close> bytes of the payload are zero.
\<close>

theorem calloc_zero_fill:
  assumes r: "reach s L" and sz: "u64 (nmemb * sz) + 15 < 18446744073709551616"
  shows "\<exists>s' p. calloc s nmemb sz = Some (s', p)
           \<and> (\<exists>s1. malloc s (u64 (nmemb * sz)) = Some (s1, p))
           \<and> (p \<noteq> 0 \<longrightarrow>
                 GET_ALLOC s' (HDRP p) = 1
               \<and> u64 (nmemb * sz) \<le> GET_SIZE s' (HDRP p) - 8
               \<and> mem_start_brk s' \<le> p
               \<and> p + (GET_SIZE s' (HDRP p) - 8) \<le> mem_brk s'
               \<and> (\<forall>i. 0 \<le> i \<and> i < u64 (nmemb * sz) \<longrightarrow> mem s' (p + i) = 0))"
proof -
  from reach_inv[OF r] obtain bs fl where h: "heap_rel s bs fl" and nf: "naf bs"
    unfolding heap_inv_def by blast
  from calloc_spec[OF h nf sz] obtain s' p bs' fl' where
    c: "calloc s nmemb sz = Some (s', p)" and h': "heap_rel s' bs' fl'"
    and hl: "heap_listp s' = heap_listp s"
    and al: "if p = 0 then allocs (heap_listp s) bs' = allocs (heap_listp s) bs
             else \<exists>z. u64 (nmemb * sz) + 8 \<le> z \<and> (p, z) \<notin> allocs (heap_listp s) bs
                    \<and> allocs (heap_listp s) bs' = insert (p, z) (allocs (heap_listp s) bs)"
    by blast
  have blk: "GET_ALLOC s' (HDRP p) = 1 \<and> u64 (nmemb * sz) \<le> GET_SIZE s' (HDRP p) - 8
      \<and> mem_start_brk s' \<le> p \<and> p + (GET_SIZE s' (HDRP p) - 8) \<le> mem_brk s'"
    if p0: "p \<noteq> 0"
  proof -
    from al p0 obtain z where z: "u64 (nmemb * sz) + 8 \<le> z"
      "(p, z) \<notin> allocs (heap_listp s) bs"
      "allocs (heap_listp s) bs' = insert (p, z) (allocs (heap_listp s) bs)" by auto
    have ne: "p \<noteq> heap_listp s'"
      using fresh_not_prologue[OF heap_relD(1)[OF h] heap_relD(1)[OF h'] hl z(3) z(2)] hl
      by simp
    have qa: "(p, z) \<in> allocs (heap_listp s') bs'" using z(3) hl by simp
    from alloc_block[OF h' qa ne] z(1) show ?thesis by simp
  qed
  from calloc_fill[OF c] blk show ?thesis
    by (intro exI[of _ s'] exI[of _ p]) (use c in simp)
qed

theorem calloc_zero_fill_witness:
  "reach wrap_free {4176} \<and> u64 (10 * 8) = 80
   \<and> calloc wrap_free 10 8 = Some (fst wrap_calloc, 4240)
   \<and> GET_ALLOC (fst wrap_calloc) (HDRP 4240) = 1
   \<and> 80 \<le> GET_SIZE (fst wrap_calloc) (HDRP 4240) - 8
   \<and> 4240 + (GET_SIZE (fst wrap_calloc) (HDRP 4240) - 8) \<le> mem_brk (fst wrap_calloc)
   \<and> mem (fst wrap_calloc) (4240 + 79) = 0"
proof -
  have u: "u64 (10 * 8) = 80" by code_simp
  then have b: "u64 (10 * 8) + 15 < 18446744073709551616" by simp
  from calloc_zero_fill[OF reach_wrap_free b] wrap_calloc_result u
  have "GET_ALLOC (fst wrap_calloc) (HDRP 4240) = 1
      \<and> 80 \<le> GET_SIZE (fst wrap_calloc) (HDRP 4240) - 8
      \<and> 4240 + (GET_SIZE (fst wrap_calloc) (HDRP 4240) - 8) \<le> mem_brk (fst wrap_calloc)
      \<and> (\<forall>i. 0 \<le> i \<and> i < 80 \<longrightarrow> mem (fst wrap_calloc) (4240 + i) = 0)"
    by auto
  then have k: "GET_ALLOC (fst wrap_calloc) (HDRP 4240) = 1"
    "80 \<le> GET_SIZE (fst wrap_calloc) (HDRP 4240) - 8"
    "4240 + (GET_SIZE (fst wrap_calloc) (HDRP 4240) - 8) \<le> mem_brk (fst wrap_calloc)"
    and z: "\<forall>i. 0 \<le> i \<and> i < 80 \<longrightarrow> mem (fst wrap_calloc) (4240 + i) = 0"
    by blast+
  have "mem (fst wrap_calloc) (4240 + 79) = 0" using z[rule_format, of 79] by simp
  with k reach_wrap_free wrap_calloc_result u show ?thesis by simp
qed

text \<open>The claim as written fails in two ways. The payload is not cleared as a whole:
  \<^verbatim>\<open>calloc(1, 1)\<close> returns the recycled block of 16 bytes at 4112, whose payload has 8 bytes;
  only the first byte is cleared, and the fifth still holds the link that the free list
  had stored there. And not every byte count is served: for \<^verbatim>\<open>calloc(1, 2^64 - 8)\<close> right
  after \<^verbatim>\<open>mm_init\<close>, \<^verbatim>\<open>malloc\<close> adjusts the request to 0 and returns the free block at 4112,
  and \<^verbatim>\<open>memset\<close> then runs off the heap: the call does not return.\<close>

theorem calloc_zero_fill_counterexample:
  "snd recycled_calloc = 4112
   \<and> GET_SIZE (fst recycled_calloc) (HDRP 4112) - 8 = 8
   \<and> mem (fst recycled_calloc) (4112 + 4) \<noteq> 0
   \<and> u64 (1 * 18446744073709551608) = 18446744073709551608
   \<and> map_option snd (malloc scenario_init (u64 (1 * 18446744073709551608))) = Some 4112
   \<and> Option.is_none (calloc scenario_init 1 18446744073709551608)"
  by code_simp

end
